theory Spec2Isabelle
  imports Main "HOL-Library.List_Lexorder" "HOL-Library.Char_ord"
    "HOL-Library.Product_Lexorder" "HOL-Library.Multiset" "HOL-Library.AList"
    "HOL-Library.Extended_Nat"
begin

section \<open>JavaScript values read by \<^verbatim>\<open>src/util/elmUtils.ts\<close>\<close>

text \<open>
  A JavaScript number as \<^verbatim>\<open>versionCompare\<close> and \<^verbatim>\<open>parseVersion\<close> meet it: \<^verbatim>\<open>NaN\<close>, a
  non-negative integer that a 64-bit float holds, or \<^verbatim>\<open>Infinity\<close>.
\<close>

datatype jsnum = NaN | Num nat | Infinity

text \<open>
  The comparison \<^verbatim>\<open>x > y\<close> on numbers: false as soon as one side is \<^verbatim>\<open>NaN\<close>, and
  \<^verbatim>\<open>Infinity\<close> is greater than every integer.
\<close>

fun js_gt :: "jsnum \<Rightarrow> jsnum \<Rightarrow> bool" where
  "js_gt (Num a) (Num b) = (b < a)"
| "js_gt Infinity (Num b) = True"
| "js_gt _ _ = False"

definition is_digit :: "char \<Rightarrow> bool" where
  "is_digit c = (c \<in> set ''0123456789'')"

definition digit_value :: "char \<Rightarrow> nat" where
  "digit_value c = of_char c - 48"

definition decimal :: "string \<Rightarrow> nat" where
  "decimal s = foldl (\<lambda>n c. 10 * n + digit_value c) 0 s"

text \<open>The position of the highest bit of a natural number: \<open>floor_log2 n < k\<close> says \<open>n < 2^k\<close>.\<close>

fun floor_log2 :: "nat \<Rightarrow> nat" where
  "floor_log2 n = (if n < 2 then 0 else Suc (floor_log2 (n div 2)))"

declare floor_log2.simps [simp del]

text \<open>
  The 64-bit float nearest to a natural number, as the conversion of a decimal literal
  gives it: a number of at most 53 bits (below \<open>2^53\<close>) is itself; a longer one keeps
  its 53 leading bits, rounded to the nearest with ties to the even one, and is
  \<^verbatim>\<open>Infinity\<close> when the rounded value reaches \<open>2^1024\<close>. So \<open>2^53 + 1\<close> becomes \<open>2^53\<close>
  and \<open>2^53 + 3\<close> becomes \<open>2^53 + 4\<close>. (For literals of more than 20 significant digits
  the language lets an implementation round from the first 20; the engine under Node
  rounds exactly, which is what is modelled.)
\<close>

definition to_double :: "nat \<Rightarrow> jsnum" where
  "to_double n =
     (if floor_log2 n < 53 then Num n
      else
        (let e = floor_log2 n - 52;
             q = n div 2 ^ e;
             r = n mod 2 ^ e;
             half = 2 ^ (e - 1);
             m = (if half < r \<or> (r = half \<and> odd q) then q + 1 else q);
             rounded = m * 2 ^ e
         in if rounded < 2 ^ 1024 then Num rounded else Infinity))"

text \<open>
  \<^verbatim>\<open>Number(x)\<close> for \<^verbatim>\<open>x\<close> a string or \<^verbatim>\<open>undefined\<close> (\<open>None\<close>): \<^verbatim>\<open>undefined\<close> gives
  \<^verbatim>\<open>NaN\<close>, the empty string gives 0, a string of decimal digits gives the float nearest
  to its value. Any other text is mapped to \<^verbatim>\<open>NaN\<close>; that is what JavaScript does for
  text that is not a numeric literal (\<^verbatim>\<open>"1a"\<close>, \<^verbatim>\<open>"x"\<close>), while other literal forms (a
  sign, blanks, an exponent, a radix prefix) are outside this model. Every theorem below
  that depends on the value of a component is stated for strings of decimal digits.
\<close>

definition Number_js :: "string option \<Rightarrow> jsnum" where
  "Number_js x =
     (case x of
        None \<Rightarrow> NaN
      | Some s \<Rightarrow>
          if s = [] then Num 0 else if list_all is_digit s then to_double (decimal s) else NaN)"

text \<open>
  \<^verbatim>\<open>parseInt(x)\<close>: the float nearest to the value of the longest prefix of decimal
  digits, \<^verbatim>\<open>NaN\<close> when there is none (leading blanks, a sign and a radix prefix are
  outside this model).
\<close>

definition parseInt_js :: "string option \<Rightarrow> jsnum" where
  "parseInt_js x =
     (case x of
        None \<Rightarrow> NaN
      | Some s \<Rightarrow>
          (let ds = takeWhile is_digit s in if ds = [] then NaN else to_double (decimal ds)))"

text \<open>\<^verbatim>\<open>s.split(c)\<close> for a one-character separator: never the empty array.\<close>

fun split_js :: "char \<Rightarrow> string \<Rightarrow> string list" where
  "split_js c [] = [[]]"
| "split_js c (x # xs) =
     (if x = c then [] # split_js c xs
      else (case split_js c xs of w # ws \<Rightarrow> (x # w) # ws | [] \<Rightarrow> [[x]]))"

text \<open>An array read \<^verbatim>\<open>xs[i]\<close>: \<^verbatim>\<open>undefined\<close> out of range.\<close>

definition at_js :: "'a list \<Rightarrow> nat \<Rightarrow> 'a option" where
  "at_js xs i = (if i < length xs then Some (xs ! i) else None)"

section \<open>Versions and constraints\<close>

text \<open>\<^verbatim>\<open>IVersion\<close> and \<^verbatim>\<open>IConstraint\<close>, as \<^verbatim>\<open>elmUtils.ts\<close> builds and reads them.\<close>

record IVersion =
  major :: jsnum
  minor :: jsnum
  patch :: jsnum
  string :: string

datatype operator = Lt | Le

record IConstraint =
  lower :: IVersion
  upper :: IVersion
  lowerOperator :: operator
  upperOperator :: operator

definition parseVersion :: "string \<Rightarrow> IVersion" where
  "parseVersion version =
     (let parts = split_js CHR ''.'' version
      in \<lparr>major = parseInt_js (at_js parts 0),
          minor = parseInt_js (at_js parts 1),
          patch = parseInt_js (at_js parts 2),
          string = version\<rparr>)"

text \<open>The loop of \<^verbatim>\<open>versionCompare\<close>, from index \<open>i\<close> on.\<close>

function versionCompare_loop :: "string list \<Rightarrow> string list \<Rightarrow> nat \<Rightarrow> int" where
  "versionCompare_loop pa pb i =
     (if i < 3 then
        (let na = Number_js (at_js pa i); nb = Number_js (at_js pb i)
         in if js_gt na nb then 1
            else if js_gt nb na then - 1
            else versionCompare_loop pa pb (i + 1))
      else 0)"
  by pat_completeness auto
termination
  by (relation "measure (\<lambda>(pa, pb, i). 3 - i)") auto

definition versionCompare :: "IVersion \<Rightarrow> IVersion \<Rightarrow> int" where
  "versionCompare a b =
     versionCompare_loop (split_js CHR ''.'' (string a)) (split_js CHR ''.'' (string b)) 0"

definition filterSemver :: "IVersion \<Rightarrow> IVersion \<Rightarrow> operator \<Rightarrow> bool" where
  "filterSemver lo up operator =
     (let currentCompare = versionCompare lo up
      in case operator of
           Le \<Rightarrow> currentCompare = - 1 \<or> currentCompare = 0
         | Lt \<Rightarrow> currentCompare = - 1)"

definition versionSatifiesConstraint :: "IVersion \<Rightarrow> IConstraint \<Rightarrow> bool" where
  "versionSatifiesConstraint version constraint =
     (filterSemver (lower constraint) version (lowerOperator constraint) \<and>
      filterSemver version (upper constraint) (upperOperator constraint))"

text \<open>The local function \<^verbatim>\<open>merge\<close> of \<^verbatim>\<open>constraintIntersect\<close>.\<close>

definition merge :: "operator \<Rightarrow> operator \<Rightarrow> operator" where
  "merge op1 op2 = (if op1 = Lt \<or> op2 = Lt then Lt else Le)"

text \<open>
  \<^verbatim>\<open>constraintIntersect\<close>. The four \<^verbatim>\<open>let\<close> variables start \<^verbatim>\<open>undefined\<close> (\<open>None\<close>) and are
  set by the cases \<open>-1\<close>, \<open>0\<close>, \<open>1\<close> of the two switches; the final test returns
  \<^verbatim>\<open>undefined\<close> when one is still unset or when the new lower bound does not compare
  \<open>-1\<close> to the new upper bound.
\<close>

definition constraintIntersect :: "IConstraint \<Rightarrow> IConstraint \<Rightarrow> IConstraint option" where
  "constraintIntersect a b =
     (let lowerCompare = versionCompare (lower a) (lower b);
          (newLower, newLowerOp) =
            (if lowerCompare = - 1 then (Some (lower b), Some (lowerOperator b))
             else if lowerCompare = 0 then
               (Some (lower a), Some (merge (lowerOperator a) (lowerOperator b)))
             else if lowerCompare = 1 then (Some (lower a), Some (lowerOperator a))
             else (None, None));
          upperCompare = versionCompare (upper a) (upper b);
          (newUpper, newUpperOp) =
            (if upperCompare = - 1 then (Some (upper a), Some (upperOperator a))
             else if upperCompare = 0 then
               (Some (upper a), Some (merge (upperOperator a) (upperOperator b)))
             else if upperCompare = 1 then (Some (upper b), Some (upperOperator b))
             else (None, None))
      in case (newLower, newUpper, newLowerOp, newUpperOp) of
           (Some nl, Some nu, Some nlo, Some nuo) \<Rightarrow>
             if versionCompare nl nu \<noteq> - 1 then None
             else Some \<lparr>lower = nl, upper = nu, lowerOperator = nlo, upperOperator = nuo\<rparr>
         | _ \<Rightarrow> None)"

section \<open>Reading versions as numeric triples\<close>

text \<open>
  A non-empty string of decimal digits: what \<^verbatim>\<open>\d+\<close> in the regular expression of
  \<^verbatim>\<open>parseContraint\<close> admits.
\<close>

definition digits :: "string \<Rightarrow> bool" where
  "digits s = (s \<noteq> [] \<and> list_all is_digit s)"

text \<open>
  A version whose string form starts with three dot-separated groups of digits, the
  three components \<^verbatim>\<open>versionCompare\<close> reads.
\<close>

definition numeric_version :: "IVersion \<Rightarrow> bool" where
  "numeric_version v =
     (case split_js CHR ''.'' (string v) of
        a # b # c # _ \<Rightarrow> digits a \<and> digits b \<and> digits c
      | _ \<Rightarrow> False)"

definition numeric_constraint :: "IConstraint \<Rightarrow> bool" where
  "numeric_constraint c = (numeric_version (lower c) \<and> numeric_version (upper c))"

text \<open>
  A number that is not \<^verbatim>\<open>NaN\<close>, in the order of \<^verbatim>\<open>>\<close>: an integer, or \<open>\<infinity>\<close> for
  \<^verbatim>\<open>Infinity\<close>.
\<close>

definition number_rank :: "jsnum \<Rightarrow> enat" where
  "number_rank x = (case x of NaN \<Rightarrow> 0 | Num n \<Rightarrow> enat n | Infinity \<Rightarrow> \<infinity>)"

text \<open>
  The three numbers that \<^verbatim>\<open>Number\<close> reads from the string form of a version: the value
  of each of the first three groups, as a 64-bit float.
\<close>

definition version_key :: "IVersion \<Rightarrow> enat \<times> enat \<times> enat" where
  "version_key v =
     (case split_js CHR ''.'' (string v) of
        a # b # c # _ \<Rightarrow>
          (number_rank (Number_js (Some a)), number_rank (Number_js (Some b)),
           number_rank (Number_js (Some c)))
      | _ \<Rightarrow> (0, 0, 0))"

text \<open>
  The three integers written in the string form of a version, without rounding.
\<close>

definition written_key :: "IVersion \<Rightarrow> nat \<times> nat \<times> nat" where
  "written_key v =
     (case split_js CHR ''.'' (string v) of
        a # b # c # _ \<Rightarrow> (decimal a, decimal b, decimal c)
      | _ \<Rightarrow> (0, 0, 0))"

text \<open>The three numeric fields of a version, when none of them is \<^verbatim>\<open>NaN\<close>.\<close>

definition numeric_triple :: "IVersion \<Rightarrow> (enat \<times> enat \<times> enat) option" where
  "numeric_triple v =
     (if major v = NaN \<or> minor v = NaN \<or> patch v = NaN then None
      else Some (number_rank (major v), number_rank (minor v), number_rank (patch v)))"

text \<open>Three-way comparison in the lexicographic order of triples.\<close>

definition compare3 :: "enat \<times> enat \<times> enat \<Rightarrow> enat \<times> enat \<times> enat \<Rightarrow> int" where
  "compare3 x y = (if x < y then - 1 else if x = y then 0 else 1)"

definition within_bound :: "operator \<Rightarrow> enat \<times> enat \<times> enat \<Rightarrow> enat \<times> enat \<times> enat \<Rightarrow> bool" where
  "within_bound operator x y = (case operator of Le \<Rightarrow> x \<le> y | Lt \<Rightarrow> x < y)"

text \<open>
  The two ends of a constraint, and the choice \<^verbatim>\<open>constraintIntersect\<close> makes between two
  lower ends and between two upper ends, written on the numeric reading.
\<close>

definition lower_end :: "IConstraint \<Rightarrow> IVersion \<times> operator" where
  "lower_end c = (lower c, lowerOperator c)"

definition upper_end :: "IConstraint \<Rightarrow> IVersion \<times> operator" where
  "upper_end c = (upper c, upperOperator c)"

definition meet_lower :: "IVersion \<times> operator \<Rightarrow> IVersion \<times> operator \<Rightarrow> IVersion \<times> operator" where
  "meet_lower x y =
     (if version_key (fst x) < version_key (fst y) then y
      else if version_key (fst x) = version_key (fst y) then (fst x, merge (snd x) (snd y))
      else x)"

definition meet_upper :: "IVersion \<times> operator \<Rightarrow> IVersion \<times> operator \<Rightarrow> IVersion \<times> operator" where
  "meet_upper x y =
     (if version_key (fst x) < version_key (fst y) then x
      else if version_key (fst x) = version_key (fst y) then (fst x, merge (snd x) (snd y))
      else y)"

definition of_ends :: "IVersion \<times> operator \<Rightarrow> IVersion \<times> operator \<Rightarrow> IConstraint option" where
  "of_ends l u =
     (if version_key (fst l) < version_key (fst u)
      then Some \<lparr>lower = fst l, upper = fst u, lowerOperator = snd l, upperOperator = snd u\<rparr>
      else None)"

text \<open>Satisfaction of an optional constraint: an absent one satisfies no version.\<close>

definition satisfies_opt :: "IVersion \<Rightarrow> IConstraint option \<Rightarrow> bool" where
  "satisfies_opt v oc = (case oc of None \<Rightarrow> False | Some c \<Rightarrow> versionSatifiesConstraint v c)"

text \<open>
  Two constraints describe the same interval: their bounds compare equal and their
  operators are the same.
\<close>

definition same_interval :: "IConstraint \<Rightarrow> IConstraint \<Rightarrow> bool" where
  "same_interval c d =
     (versionCompare (lower c) (lower d) = 0 \<and> versionCompare (upper c) (upper d) = 0 \<and>
      lowerOperator c = lowerOperator d \<and> upperOperator c = upperOperator d)"

text \<open>
  The object \<^verbatim>\<open>parseContraint\<close> returns for the match groups \<^verbatim>\<open>m[1]\<close> to \<^verbatim>\<open>m[4]\<close>.
\<close>

definition mkConstraint :: "string \<Rightarrow> operator \<Rightarrow> operator \<Rightarrow> string \<Rightarrow> IConstraint" where
  "mkConstraint lowerRange lowerOp upperOp upperRange =
     \<lparr>lower = parseVersion lowerRange, upper = parseVersion upperRange,
      lowerOperator = lowerOp, upperOperator = upperOp\<rparr>"

text \<open>Sample versions and constraints.\<close>

definition v_2_0_0 :: IVersion where
  "v_2_0_0 = parseVersion ''2.0.0''"

definition v_1_5_0 :: IVersion where
  "v_1_5_0 = parseVersion ''1.5.0''"

definition c_1_to_2 :: IConstraint where
  "c_1_to_2 = mkConstraint ''1.0.0'' Le Lt ''2.0.0''"

definition c_12_to_3 :: IConstraint where
  "c_12_to_3 = mkConstraint ''1.2.0'' Le Le ''3.0.0''"

definition c_2_to_3 :: IConstraint where
  "c_2_to_3 = mkConstraint ''2.0.0'' Le Lt ''3.0.0''"

definition c_1_upto_2 :: IConstraint where
  "c_1_upto_2 = mkConstraint ''1.0.0'' Le Le ''2.0.0''"

definition c_01_to_2 :: IConstraint where
  "c_01_to_2 = mkConstraint ''01.0.0'' Le Lt ''2.0.0''"

text \<open>A constraint whose bounds start with \<open>2^53\<close> and \<open>2^53 + 1\<close>, which \<^verbatim>\<open>Number\<close> reads alike.\<close>

definition c_big :: IConstraint where
  "c_big = mkConstraint ''9007199254740992.0.0'' Le Le ''9007199254740993.0.0''"

section \<open>The dependency solver of \<^verbatim>\<open>elmUtils.ts\<close>\<close>

text \<open>
  A JavaScript \<^verbatim>\<open>Map\<close> with string keys, as the list of its entries in insertion order:
  \<^verbatim>\<open>get\<close> is \<open>map_of\<close>, \<^verbatim>\<open>set\<close> is \<open>AList.update\<close> (a present key keeps its place, a new
  one goes last), \<^verbatim>\<open>delete\<close> is \<open>AList.delete\<close>, \<^verbatim>\<open>keys()\<close> is \<open>map fst\<close>.
\<close>

type_synonym 'v js_map = "(string \<times> 'v) list"

text \<open>
  \<^verbatim>\<open>new Set(xs)\<close>, as the list of its elements in iteration order (the order of first
  insertion).
\<close>

definition js_Set :: "'a list \<Rightarrow> 'a list" where
  "js_Set xs = foldl (\<lambda>acc x. if x \<in> set acc then acc else acc @ [x]) [] xs"

text \<open>
  \<^verbatim>\<open>xs.sort(cmp)\<close>: a stable sort by a comparator (ECMAScript 2019), here by insertion
  from the right.
\<close>

fun insert_by :: "('a \<Rightarrow> 'a \<Rightarrow> int) \<Rightarrow> 'a \<Rightarrow> 'a list \<Rightarrow> 'a list" where
  "insert_by cmp x [] = [x]"
| "insert_by cmp x (y # ys) = (if cmp x y \<le> 0 then x # y # ys else y # insert_by cmp x ys)"

definition sort_js :: "('a \<Rightarrow> 'a \<Rightarrow> int) \<Rightarrow> 'a list \<Rightarrow> 'a list" where
  "sort_js cmp xs = foldr (insert_by cmp) xs []"

text \<open>
  The operators \<^verbatim>\<open><\<close> and \<^verbatim>\<open>></\<close> applied to two \<^verbatim>\<open>IVersion\<close> objects, as the comparator of
  the candidate sort does: each operand is converted to a primitive, which for a plain
  object is the string \<^verbatim>\<open>[object Object]\<close>, and the two strings are compared.
\<close>

definition js_toPrimitive :: "IVersion \<Rightarrow> string" where
  "js_toPrimitive v = ''[object Object]''"

definition js_lt_object :: "IVersion \<Rightarrow> IVersion \<Rightarrow> bool" where
  "js_lt_object a b = (js_toPrimitive a < js_toPrimitive b)"

text \<open>An entry of the package cache: a published version and its dependencies.\<close>

record IPackage =
  version :: IVersion
  dependencies :: "IConstraint js_map"

datatype error = Impossible | UnknownPackage | TypeError

text \<open>
  \<^verbatim>\<open>IElmPackageCache\<close> is declared outside these sources; the solver only calls
  \<^verbatim>\<open>packageCache.get(name)\<close>, so the cache is a parameter: a function from a package name
  to the list of its entries, or to the error it raises.
\<close>

type_synonym IElmPackageCache = "string \<Rightarrow> error + IPackage list"

record SolverResult =
  pending :: "IConstraint js_map"
  solutions :: "IVersion js_map"

text \<open>
  What a call does: it runs out of the recursion depth it was given, it raises, or it
  returns a value.
\<close>

datatype 'a run = Diverges | Throws error | Returns 'a

text \<open>
  \<^verbatim>\<open>pickDep\<close>: the first key in sorted order and the map without it. \<^verbatim>\<open>sort()\<close> with no
  comparator orders strings by their code units, which for ASCII names is the
  lexicographic order of \<open>sort\<close> on strings. \<^verbatim>\<open>firstDep ? ... :
  undefined\<close> is a truthiness test, so the empty string counts as no key at all. The
  lookup \<^verbatim>\<open>deps.get(firstDep)!\<close> of a key of the map is never \<^verbatim>\<open>undefined\<close>.
\<close>

definition pickDep :: "IConstraint js_map \<Rightarrow> (string \<times> IConstraint) option \<times> IConstraint js_map" where
  "pickDep deps =
     (let firstDep = at_js (sort (map fst deps)) 0;
          restDeps = (case firstDep of None \<Rightarrow> deps | Some k \<Rightarrow> AList.delete k deps)
      in (case firstDep of
            None \<Rightarrow> None
          | Some k \<Rightarrow>
              if k = [] then None
              else (case map_of deps k of None \<Rightarrow> None | Some c \<Rightarrow> Some (k, c)),
          restDeps))"

text \<open>
  \<^verbatim>\<open>combineDeps\<close>: the loop over the union of the keys, with the map built so far. An
  empty intersection returns \<^verbatim>\<open>undefined\<close> (\<open>Returns None\<close>).
\<close>

fun combineDeps_loop ::
  "IConstraint js_map \<Rightarrow> IConstraint js_map \<Rightarrow> string list \<Rightarrow> IConstraint js_map \<Rightarrow>
   error + IConstraint js_map option" where
  "combineDeps_loop a b [] deps = Inr (Some deps)"
| "combineDeps_loop a b (key # keys) deps =
     (case (map_of a key, map_of b key) of
        (Some v1, Some v2) \<Rightarrow>
          (case constraintIntersect v1 v2 of
             None \<Rightarrow> Inr None
           | Some intersect \<Rightarrow> combineDeps_loop a b keys (AList.update key intersect deps))
      | (Some v1, None) \<Rightarrow> combineDeps_loop a b keys (AList.update key v1 deps)
      | (None, Some v2) \<Rightarrow> combineDeps_loop a b keys (AList.update key v2 deps)
      | (None, None) \<Rightarrow> Inl Impossible)"

definition combineDeps ::
  "IConstraint js_map \<Rightarrow> IConstraint js_map \<Rightarrow> error + IConstraint js_map option" where
  "combineDeps a b = combineDeps_loop a b (js_Set (map fst a @ map fst b)) []"

text \<open>The candidates of a dependency, in the order the loop tries them.\<close>

definition candidates_of ::
  "IPackage list \<Rightarrow> IConstraint \<Rightarrow> IVersion option \<Rightarrow> IPackage list" where
  "candidates_of packages constraint solvedVersion =
     (let candidates =
            rev (sort_js
                   (\<lambda>a b. if js_lt_object (version a) (version b) then - 1
                          else if js_lt_object (version b) (version a) then 1 else 0)
                   (filter (\<lambda>p. versionSatifiesConstraint (version p) constraint) packages))
      in case solvedVersion of
           None \<Rightarrow> candidates
         | Some sv \<Rightarrow> filter (\<lambda>a. string (version a) = string sv) candidates)"

text \<open>
  \<^verbatim>\<open>solveDependenciesWorker\<close>, with the depth of recursion it may use as first argument,
  and its loop over the candidates. A call at depth \<open>Suc n\<close> runs its recursive calls at
  depth \<open>n\<close>.
\<close>

fun solveDependenciesWorker ::
  "nat \<Rightarrow> IElmPackageCache \<Rightarrow> IConstraint js_map \<Rightarrow> IVersion js_map \<Rightarrow> SolverResult option run"
and tryCandidates ::
  "nat \<Rightarrow> IElmPackageCache \<Rightarrow> IConstraint js_map \<Rightarrow> IVersion js_map \<Rightarrow> string \<Rightarrow>
   IPackage list \<Rightarrow> SolverResult option run" where
  "solveDependenciesWorker 0 packageCache deps sols = Diverges"
| "solveDependenciesWorker (Suc n) packageCache deps sols =
     (case pickDep deps of
        (None, restDeps) \<Rightarrow> Returns (Some \<lparr>pending = deps, solutions = sols\<rparr>)
      | (Some (name, constraint), restDeps) \<Rightarrow>
          (case packageCache name of
             Inl e \<Rightarrow> Throws e
           | Inr packages \<Rightarrow>
               tryCandidates n packageCache restDeps sols name
                 (candidates_of packages constraint (map_of sols name))))"
| "tryCandidates n packageCache restDeps sols name [] = Returns None"
| "tryCandidates n packageCache restDeps sols name (candidate # candidates) =
     (case combineDeps restDeps (dependencies candidate) of
        Inl e \<Rightarrow> Throws e
      | Inr None \<Rightarrow> tryCandidates n packageCache restDeps sols name candidates
      | Inr (Some tentativeDeps) \<Rightarrow>
          (case solveDependenciesWorker n packageCache tentativeDeps
                  (AList.update name (version candidate) sols) of
             Diverges \<Rightarrow> Diverges
           | Throws e \<Rightarrow> Throws e
           | Returns None \<Rightarrow> tryCandidates n packageCache restDeps sols name candidates
           | Returns (Some result) \<Rightarrow>
               solveDependenciesWorker n packageCache (pending result) (solutions result)))"

definition solveDependencies ::
  "nat \<Rightarrow> IElmPackageCache \<Rightarrow> IConstraint js_map \<Rightarrow> IVersion js_map option run" where
  "solveDependencies n packageCache deps =
     (case solveDependenciesWorker n packageCache deps [] of
        Diverges \<Rightarrow> Diverges
      | Throws e \<Rightarrow> Throws e
      | Returns None \<Rightarrow> Returns None
      | Returns (Some result) \<Rightarrow> Returns (Some (solutions result)))"

text \<open>A package cache given by a table; a name that is not in the table raises.\<close>

definition cache_of :: "(string \<times> IPackage list) list \<Rightarrow> IElmPackageCache" where
  "cache_of table name = (case map_of table name of None \<Rightarrow> Inl UnknownPackage | Some ps \<Rightarrow> Inr ps)"

definition package :: "string \<Rightarrow> IConstraint js_map \<Rightarrow> IPackage" where
  "package v deps = \<lparr>version = parseVersion v, dependencies = deps\<rparr>"

section \<open>Notions for the claims about the solver\<close>

text \<open>What \<^verbatim>\<open>combineDeps\<close> stores under a key.\<close>

definition combined :: "IConstraint js_map \<Rightarrow> IConstraint js_map \<Rightarrow> string \<Rightarrow> IConstraint option" where
  "combined a b key =
     (case (map_of a key, map_of b key) of
        (Some v1, Some v2) \<Rightarrow> constraintIntersect v1 v2
      | (Some v1, None) \<Rightarrow> Some v1
      | (None, Some v2) \<Rightarrow> Some v2
      | (None, None) \<Rightarrow> None)"

text \<open>
  A constraint with numeric bounds that admits no numeric version another one rejects.
\<close>

definition tighter :: "IConstraint \<Rightarrow> IConstraint \<Rightarrow> bool" where
  "tighter c' c =
     (numeric_constraint c' \<and>
      (\<forall>w. numeric_version w \<longrightarrow> versionSatifiesConstraint w c' \<longrightarrow> versionSatifiesConstraint w c))"

text \<open>
  The solution maps a package to a version that satisfies a constraint; a solution
  satisfies a map of constraints.
\<close>

definition chosen :: "IVersion js_map \<Rightarrow> string \<Rightarrow> IConstraint \<Rightarrow> bool" where
  "chosen sols q c = (\<exists>w. map_of sols q = Some w \<and> versionSatifiesConstraint w c)"

definition satisfied :: "IVersion js_map \<Rightarrow> IConstraint js_map \<Rightarrow> bool" where
  "satisfied sols deps = (\<forall>q c. map_of deps q = Some c \<longrightarrow> chosen sols q c)"

text \<open>
  During the search, a dependency declared by a selected entry is either satisfied by
  the version already chosen or still pending under a tighter constraint; every version
  selected so far is the version of a cache entry whose dependencies are covered so.
\<close>

definition covers :: "IVersion js_map \<Rightarrow> IConstraint js_map \<Rightarrow> IPackage \<Rightarrow> bool" where
  "covers sols deps e =
     (\<forall>q c. map_of (dependencies e) q = Some c \<longrightarrow>
        chosen sols q c \<or> (\<exists>c'. map_of deps q = Some c' \<and> tighter c' c))"

definition backed :: "IElmPackageCache \<Rightarrow> IConstraint js_map \<Rightarrow> IVersion js_map \<Rightarrow> bool" where
  "backed cache deps sols =
     (\<forall>p v. map_of sols p = Some v \<longrightarrow>
        (\<exists>ps e. cache p = Inr ps \<and> e \<in> set ps \<and> version e = v \<and> covers sols deps e))"

text \<open>A later solution keeps every package chosen so far, with the same string form.\<close>

definition extends :: "IVersion js_map \<Rightarrow> IVersion js_map \<Rightarrow> bool" where
  "extends sols sols' =
     (\<forall>p v. map_of sols p = Some v \<longrightarrow> (\<exists>v'. map_of sols' p = Some v' \<and> string v' = string v))"

text \<open>
  Well-formed input, after the data model: versions and bounds whose string forms are
  dotted digit groups, and package names that are not the empty string.
\<close>

definition wellformed_cache :: "IElmPackageCache \<Rightarrow> bool" where
  "wellformed_cache cache =
     (\<forall>p ps e. cache p = Inr ps \<longrightarrow> e \<in> set ps \<longrightarrow>
        numeric_version (version e) \<and> [] \<notin> fst ` set (dependencies e) \<and>
        (\<forall>q c. map_of (dependencies e) q = Some c \<longrightarrow> numeric_constraint c))"

definition wellformed_deps :: "IConstraint js_map \<Rightarrow> bool" where
  "wellformed_deps deps =
     ([] \<notin> fst ` set deps \<and> (\<forall>q c. map_of deps q = Some c \<longrightarrow> numeric_constraint c))"

definition numeric_solutions :: "IVersion js_map \<Rightarrow> bool" where
  "numeric_solutions sols = (\<forall>p v. map_of sols p = Some v \<longrightarrow> numeric_version v)"

text \<open>What a returned result of the worker satisfies, relative to its arguments.\<close>

definition solver_post :: "IElmPackageCache \<Rightarrow> IConstraint js_map \<Rightarrow> IVersion js_map \<Rightarrow> SolverResult \<Rightarrow> bool" where
  "solver_post cache deps sols r =
     (pending r = [] \<and> numeric_solutions (solutions r) \<and> backed cache [] (solutions r) \<and>
      extends sols (solutions r) \<and> satisfied (solutions r) deps)"

text \<open>The same conditions on a cache given by a table, as checks that evaluate.\<close>

definition wellformed_entry :: "IPackage \<Rightarrow> bool" where
  "wellformed_entry e =
     (numeric_version (version e) \<and> [] \<notin> set (map fst (dependencies e)) \<and>
      list_all (\<lambda>(q, c). numeric_constraint c) (dependencies e))"

definition wellformed_table :: "(string \<times> IPackage list) list \<Rightarrow> bool" where
  "wellformed_table table = list_all (\<lambda>(p, ps). list_all wellformed_entry ps) table"

definition table_distinct :: "(string \<times> IPackage list) list \<Rightarrow> bool" where
  "table_distinct table = list_all (\<lambda>(p, ps). distinct (map version ps)) table"

text \<open>
  Sample caches: the one of the solver scenario of the specification, with the versions
  listed oldest first; one with a version directory whose name is not numeric; one
  listed in the order of a directory listing; and one where a package depends on itself.
\<close>

definition cache5 :: IElmPackageCache where
  "cache5 = cache_of
     [(''P'', [package ''1.4.0'' [(''Q'', mkConstraint ''2.0.0'' Le Lt ''3.0.0'')],
               package ''1.5.0'' [(''Q'', mkConstraint ''1.0.0'' Le Lt ''2.0.0'')]]),
      (''Q'', [package ''1.9.0'' [], package ''2.1.0'' []])]"

definition c_19_to_39 :: IConstraint where
  "c_19_to_39 = mkConstraint ''1.9.0'' Le Lt ''3.9.0''"

definition c_2_to_39 :: IConstraint where
  "c_2_to_39 = mkConstraint ''2.0.0'' Le Lt ''3.9.0''"

definition cache_x :: IElmPackageCache where
  "cache_x = cache_of
     [(''A'', [package ''1.0.0'' [(''Q'', c_19_to_39)]]),
      (''B'', [package ''1.0.0'' [(''Q'', c_2_to_39)]]),
      (''Q'', [package ''x.5.0'' []])]"

text \<open>The relation "is a declared dependency of some entry of".\<close>

definition depends_on :: "IElmPackageCache \<Rightarrow> (string \<times> string) set" where
  "depends_on cache =
     {(q, p). \<exists>ps e. cache p = Inr ps \<and> e \<in> set ps \<and> q \<in> fst ` set (dependencies e)}"

definition cache_listing :: IElmPackageCache where
  "cache_listing = cache_of [(''P'', [package ''1.0.10'' [], package ''1.0.2'' []])]"

definition cache_cyclic :: IElmPackageCache where
  "cache_cyclic = cache_of [(''A'', [package ''1.0.0'' [(''A'', c_1_to_2)]])]"

section \<open>Syntax trees, positions and edits, as the handlers read them\<close>

text \<open>A tree-sitter \<^verbatim>\<open>Point\<close> and a protocol \<^verbatim>\<open>Position\<close>, \<^verbatim>\<open>Range\<close> and \<^verbatim>\<open>TextEdit\<close>.\<close>

record Point =
  row :: nat
  column :: nat

record Position =
  line :: nat
  character :: nat

record Range =
  range_start :: Position
  range_end :: Position

record TextEdit =
  edit_range :: Range
  newText :: string

text \<open>\<^verbatim>\<open>TextEdit.del(range)\<close> and \<^verbatim>\<open>TextEdit.insert(position, newText)\<close>.\<close>

definition TextEdit_del :: "Range \<Rightarrow> TextEdit" where
  "TextEdit_del r = \<lparr>edit_range = r, newText = []\<rparr>"

definition TextEdit_insert :: "Position \<Rightarrow> string \<Rightarrow> TextEdit" where
  "TextEdit_insert p t = \<lparr>edit_range = \<lparr>range_start = p, range_end = p\<rparr>, newText = t\<rparr>"

text \<open>
  A \<^verbatim>\<open>SyntaxNode\<close> with the properties the handlers read: \<^verbatim>\<open>type\<close>, \<^verbatim>\<open>text\<close>, \<^verbatim>\<open>parent\<close>,
  \<^verbatim>\<open>previousNamedSibling\<close>, \<^verbatim>\<open>nextNamedSibling\<close> (each \<^verbatim>\<open>null\<close> when absent),
  \<^verbatim>\<open>startPosition\<close> and \<^verbatim>\<open>endPosition\<close>.
\<close>

datatype SyntaxNode =
  SyntaxNode (type_of: string) (text_of: string) (parent: "SyntaxNode option")
    (previousNamedSibling: "SyntaxNode option") (nextNamedSibling: "SyntaxNode option")
    (startPosition: Point) (endPosition: Point)

record Tree =
  rootNode :: SyntaxNode

text \<open>An entry of the forest: \<^verbatim>\<open>uri\<close>, \<^verbatim>\<open>writeable\<close> and \<^verbatim>\<open>tree\<close>.\<close>

record ITreeContainer =
  uri :: string
  writeable :: bool
  tree :: Tree

text \<open>
  \<^verbatim>\<open>s.slice(start, end)\<close> on a string, \<^verbatim>\<open>end\<close> optional: a negative index counts from the
  end, and both are clamped to the string.
\<close>

definition slice_index :: "nat \<Rightarrow> int \<Rightarrow> nat" where
  "slice_index len i = (if i < 0 then nat (max (int len + i) 0) else min (nat i) len)"

definition slice_js :: "string \<Rightarrow> int \<Rightarrow> int option \<Rightarrow> string" where
  "slice_js s start stop =
     (let len = length s;
          from = slice_index len start;
          to = (case stop of None \<Rightarrow> len | Some e \<Rightarrow> slice_index len e)
      in take (to - from) (drop from s))"

text \<open>\<^verbatim>\<open>s.lastIndexOf(c)\<close> for a one-character search string: \<open>-1\<close> when absent.\<close>

fun lastIndexOf_from :: "string \<Rightarrow> char \<Rightarrow> int \<Rightarrow> int \<Rightarrow> int" where
  "lastIndexOf_from [] c i found = found"
| "lastIndexOf_from (x # xs) c i found = lastIndexOf_from xs c (i + 1) (if x = c then i else found)"

definition lastIndexOf_js :: "string \<Rightarrow> char \<Rightarrow> int" where
  "lastIndexOf_js s c = lastIndexOf_from s c 0 (- 1)"

section \<open>\<^verbatim>\<open>handleGetMoveDestinationsRequest\<close> of \<^verbatim>\<open>moveRefactoringHandler.ts\<close>\<close>

record MoveDestination =
  destinationName :: string
  destinationPath :: string
  destinationUri :: string

record MoveParams =
  sourceUri :: string
  rangeStart :: Position
  destination :: "MoveDestination option"

record MoveDestinationsResponse =
  destinations :: "MoveDestination list"

text \<open>
  \<^verbatim>\<open>MoveParams\<close> is declared in \<^verbatim>\<open>protocol.ts\<close>, outside these sources; \<open>rangeStart\<close> is
  its \<^verbatim>\<open>params.range.start\<close>, the one part of \<^verbatim>\<open>params\<close> that is read. The library call
  \<^verbatim>\<open>URI.parse(u).fsPath\<close>, the root path of the workspace and the index of the forest are
  parameters. The search string \<^verbatim>\<open>"\\"\<close> is one backslash.
\<close>

definition handleGetMoveDestinationsRequest ::
  "(string \<Rightarrow> string) \<Rightarrow> string \<Rightarrow> ITreeContainer list \<Rightarrow> MoveParams \<Rightarrow> MoveDestinationsResponse" where
  "handleGetMoveDestinationsRequest fsPath rootPath treeIndex request =
     \<lparr>destinations =
        map (\<lambda>t.
               let u = slice_js (fsPath (uri t)) (int (length rootPath) + 1) None;
                   index = lastIndexOf_js u (CHR 0x5C)
               in \<lparr>destinationName = slice_js u (index + 1) None,
                   destinationPath = slice_js u 0 (Some index),
                   destinationUri = uri t\<rparr>)
          (filter (\<lambda>t. writeable t \<and> uri t \<noteq> sourceUri request) treeIndex)\<rparr>"

section \<open>\<^verbatim>\<open>handleHoverRequest\<close> of \<^verbatim>\<open>hoverProvider.ts\<close>\<close>

datatype CompletionItemKind = Enum

record EmptyType =
  markdown :: string
  emptyTypeName :: string
  symbolKind :: CompletionItemKind

text \<open>\<^verbatim>\<open>getEmptyTypes\<close> of \<^verbatim>\<open>elmUtils.ts\<close>; the template literal, line by line.\<close>

definition getEmptyTypes :: "EmptyType list" where
  "getEmptyTypes =
     [\<lparr>markdown =
         ''An `List` is a list of items. Every item must be of the same type. Valid syntax for lists includes:''
         @ [CHR 0x0A, CHR 0x0A]
         @ ''    []'' @ [CHR 0x0A]
         @ ''    [42, 43]'' @ [CHR 0x0A]
         @ ''    ['' @ [CHR 0x22] @ ''one'' @ [CHR 0x22] @ '', '' @ [CHR 0x22] @ ''two'' @ [CHR 0x22]
         @ '', '' @ [CHR 0x22] @ ''three'' @ [CHR 0x22] @ '']'' @ [CHR 0x0A]
         @ ''    [3.14, 0.1234]'' @ [CHR 0x0A]
         @ ''    ['' @ [CHR 0x27] @ ''a'' @ [CHR 0x27] @ '', '' @ [CHR 0x27] @ ''Z'' @ [CHR 0x27]
         @ '', '' @ [CHR 0x27] @ ''0'' @ [CHR 0x27] @ '']'' @ [CHR 0x0A]
         @ [CHR 0x0A] @ ''    '',
       emptyTypeName = ''List'',
       symbolKind = Enum\<rparr>]"

datatype MarkupKind = PlainText | Markdown

record MarkupContent =
  markupKind :: MarkupKind
  markupValue :: string

record Hover =
  contents :: MarkupContent

record TextDocumentPositionParams =
  textDocumentUri :: string
  position :: Position

record DefinitionNode =
  definitionNode :: SyntaxNode
  definitionUri :: string
  nodeType :: string

text \<open>
  The collaborators of the hover handler that are outside these sources: the forest's
  \<^verbatim>\<open>getByUri\<close>, \<^verbatim>\<open>TreeUtils\<close>, \<^verbatim>\<open>HintHelper\<close> and the imports of the workspace. A call to
  \<^verbatim>\<open>TreeUtils\<close> or \<^verbatim>\<open>HintHelper\<close> returns a value or raises (\<open>Inl\<close>).
\<close>

record ('e, 'i) HoverEnv =
  getByUri :: "string \<Rightarrow> ITreeContainer option"
  getImports :: 'i
  getNamedDescendantForPosition :: "SyntaxNode \<Rightarrow> Position \<Rightarrow> 'e + SyntaxNode"
  findDefinitionNodeByReferencingNode ::
    "SyntaxNode \<Rightarrow> string \<Rightarrow> Tree \<Rightarrow> 'i \<Rightarrow> 'e + DefinitionNode option"
  createHintFromFunctionParameter :: "SyntaxNode \<Rightarrow> 'e + string option"
  createHint :: "SyntaxNode \<Rightarrow> 'e + string option"

definition createMarkdownHoverFromDefinition ::
  "('e, 'i) HoverEnv \<Rightarrow> DefinitionNode option \<Rightarrow> 'e + Hover option" where
  "createMarkdownHoverFromDefinition env d =
     (case d of
        None \<Rightarrow> Inr None
      | Some dn \<Rightarrow>
          (case (if nodeType dn = ''FunctionParameter'' \<or>
                    nodeType dn = ''AnonymousFunctionParameter'' \<or>
                    nodeType dn = ''CasePattern''
                 then createHintFromFunctionParameter env (definitionNode dn)
                 else createHint env (definitionNode dn)) of
             Inl e \<Rightarrow> Inl e
           | Inr None \<Rightarrow> Inr None
           | Inr (Some hint) \<Rightarrow>
               if hint \<noteq> []
               then Inr (Some \<lparr>contents = \<lparr>markupKind = Markdown, markupValue = hint\<rparr>\<rparr>)
               else Inr None))"

text \<open>
  \<^verbatim>\<open>handleHoverRequest\<close>: the messages written to the console, and the result or the
  exception of a collaborator.
\<close>

definition handleHoverRequest ::
  "('e, 'i) HoverEnv \<Rightarrow> TextDocumentPositionParams \<Rightarrow> string list \<times> ('e + Hover option)" where
  "handleHoverRequest env request =
     ([''A hover was requested''],
      (case getByUri env (textDocumentUri request) of
         None \<Rightarrow> Inr None
       | Some container \<Rightarrow>
           (case getNamedDescendantForPosition env (rootNode (tree container)) (position request) of
              Inl e \<Rightarrow> Inl e
            | Inr nodeAtPosition \<Rightarrow>
                (case findDefinitionNodeByReferencingNode env nodeAtPosition
                        (textDocumentUri request) (tree container) (getImports env) of
                   Inl e \<Rightarrow> Inl e
                 | Inr (Some dn) \<Rightarrow> createMarkdownHoverFromDefinition env (Some dn)
                 | Inr None \<Rightarrow>
                     (case find (\<lambda>a. emptyTypeName a = text_of nodeAtPosition) getEmptyTypes of
                        Some specialMatch \<Rightarrow>
                          Inr (Some \<lparr>contents =
                                 \<lparr>markupKind = Markdown, markupValue = markdown specialMatch\<rparr>\<rparr>)
                      | None \<Rightarrow> Inr None)))))"

section \<open>\<^verbatim>\<open>handleMoveRequest\<close> of \<^verbatim>\<open>moveRefactoringHandler.ts\<close>\<close>

text \<open>
  A reference as \<^verbatim>\<open>References.find\<close> returns it, and the collaborators outside these
  sources: the forest's \<^verbatim>\<open>getTree\<close>, \<^verbatim>\<open>TreeUtils\<close>, \<^verbatim>\<open>References\<close> and
  \<^verbatim>\<open>RefactorEditUtils\<close>. A collaborator that raises ends the handler before anything is
  applied; they are taken here as returning.
\<close>

record Reference =
  referenceNode :: SyntaxNode
  referenceUri :: string

record MoveEnv =
  getTree :: "string \<Rightarrow> Tree option"
  namedDescendantForPosition :: "SyntaxNode \<Rightarrow> Position \<Rightarrow> SyntaxNode"
  getModuleNameNode :: "Tree \<Rightarrow> SyntaxNode option"
  findReferences :: "SyntaxNode \<Rightarrow> string \<Rightarrow> string \<Rightarrow> Reference list"
  unexposedValueInModule :: "Tree \<Rightarrow> string \<Rightarrow> TextEdit option"
  removeValueFromImport :: "Tree \<Rightarrow> string \<Rightarrow> string \<Rightarrow> TextEdit option"
  exposeValueInModule :: "Tree \<Rightarrow> string \<Rightarrow> TextEdit option"
  addImport :: "Tree \<Rightarrow> string \<Rightarrow> string \<Rightarrow> TextEdit option"

text \<open>
  The object \<^verbatim>\<open>changes\<close>, from a file URI to its edits, and \<^verbatim>\<open>changes[u].push(e)\<close>, which
  raises a \<^verbatim>\<open>TypeError\<close> when \<^verbatim>\<open>changes[u]\<close> is \<^verbatim>\<open>undefined\<close>. The keys are file URIs
  (\<^verbatim>\<open>file://...\<close>), none of which names a member that a plain object inherits, such as
  \<^verbatim>\<open>constructor\<close>; a lookup is therefore a lookup among the keys that were assigned.
\<close>

type_synonym Changes = "TextEdit list js_map"

definition push_js :: "string \<Rightarrow> TextEdit \<Rightarrow> Changes \<Rightarrow> error + Changes" where
  "push_js u e changes =
     (case map_of changes u of
        None \<Rightarrow> Inl TypeError
      | Some es \<Rightarrow> Inr (AList.update u (es @ [e]) changes))"

text \<open>\<^verbatim>\<open>if (edit) { changes[u].push(edit) }\<close> for an optional edit.\<close>

definition push_if :: "string \<Rightarrow> TextEdit option \<Rightarrow> Changes \<Rightarrow> error + Changes" where
  "push_if u edit changes = (case edit of None \<Rightarrow> Inr changes | Some e \<Rightarrow> push_js u e changes)"

text \<open>A \<^verbatim>\<open>forEach\<close> whose callback updates \<^verbatim>\<open>changes\<close> or raises.\<close>

fun forEach_js :: "('a \<Rightarrow> Changes \<Rightarrow> error + Changes) \<Rightarrow> 'a list \<Rightarrow> Changes \<Rightarrow> error + Changes" where
  "forEach_js f [] changes = Inr changes"
| "forEach_js f (x # xs) changes =
     (case f x changes of Inl e \<Rightarrow> Inl e | Inr changes' \<Rightarrow> forEach_js f xs changes')"

text \<open>
  What the handler has found when it starts to build the edits: the destination, the two
  trees, \<^verbatim>\<open>typeNode\<close>, \<^verbatim>\<open>declarationNode\<close>, \<^verbatim>\<open>functionName\<close>, \<^verbatim>\<open>moduleName\<close> and
  \<^verbatim>\<open>destinationModuleName\<close>.
\<close>

record MoveTarget =
  targetDestination :: MoveDestination
  sourceTree :: Tree
  destinationTree :: Tree
  typeNode :: "SyntaxNode option"
  declarationNode :: SyntaxNode
  functionName :: string
  moduleName :: string
  destinationModuleName :: string

text \<open>
  The first part of \<^verbatim>\<open>handleMoveRequest\<close>, up to the test \<^verbatim>\<open>declarationNode && functionName
  && moduleName && destinationModuleName\<close>: \<open>None\<close> where the handler returns without
  building any edit. \<^verbatim>\<open>a?.b\<close> is \<open>Option.bind\<close> or \<open>map_option\<close>.
\<close>

definition findMoveTarget :: "MoveEnv \<Rightarrow> MoveParams \<Rightarrow> MoveTarget option" where
  "findMoveTarget env request =
     (case destination request of
        None \<Rightarrow> None
      | Some dest \<Rightarrow>
          (case (getTree env (sourceUri request), getTree env (destinationUri dest)) of
             (Some srcTree, Some destTree) \<Rightarrow>
               (let nodeAtPosition =
                      namedDescendantForPosition env (rootNode srcTree) (rangeStart request);
                    isTypeNode =
                      (map_option type_of (parent nodeAtPosition) = Some ''type_annotation'');
                    grandParent = Option.bind (parent nodeAtPosition) parent;
                    isDeclarationNode = (map_option type_of grandParent = Some ''value_declaration'');
                    tyNode =
                      (if isDeclarationNode then
                         (if map_option type_of (Option.bind grandParent previousNamedSibling)
                               = Some ''type_annotation''
                          then Option.bind grandParent previousNamedSibling else None)
                       else if isTypeNode then parent nodeAtPosition else None);
                    declNode =
                      (if isDeclarationNode then grandParent
                       else if isTypeNode then Option.bind (parent nodeAtPosition) nextNamedSibling
                       else None);
                    fnName =
                      (if isTypeNode then Some (text_of nodeAtPosition)
                       else map_option text_of (parent nodeAtPosition));
                    modName = map_option text_of (getModuleNameNode env srcTree);
                    destModName = map_option text_of (getModuleNameNode env destTree)
                in case (declNode, fnName, modName, destModName) of
                     (Some d, Some f, Some m, Some dm) \<Rightarrow>
                       if f \<noteq> [] \<and> m \<noteq> [] \<and> dm \<noteq> []
                       then Some \<lparr>targetDestination = dest, sourceTree = srcTree,
                                  destinationTree = destTree, typeNode = tyNode,
                                  declarationNode = d, functionName = f, moduleName = m,
                                  destinationModuleName = dm\<rparr>
                       else None
                   | _ \<Rightarrow> None)
           | _ \<Rightarrow> None))"

text \<open>The edits of the handler, one definition for each.\<close>

definition removeFromSource :: "MoveTarget \<Rightarrow> TextEdit" where
  "removeFromSource t =
     (let startPos = (case typeNode t of Some ty \<Rightarrow> startPosition ty
                      | None \<Rightarrow> startPosition (declarationNode t));
          endPos = endPosition (declarationNode t)
      in TextEdit_del
           \<lparr>range_start = \<lparr>line = row startPos, character = column startPos\<rparr>,
            range_end = \<lparr>line = row endPos, character = column endPos\<rparr>\<rparr>)"

definition addToDestination :: "MoveTarget \<Rightarrow> TextEdit" where
  "addToDestination t =
     TextEdit_insert
       \<lparr>line = row (endPosition (rootNode (destinationTree t))) + 1, character = 0\<rparr>
       ([CHR 0x0A, CHR 0x0A]
        @ (case typeNode t of Some ty \<Rightarrow> text_of ty @ [CHR 0x0A] | None \<Rightarrow> [])
        @ text_of (declarationNode t))"

definition moveReferences :: "MoveEnv \<Rightarrow> MoveParams \<Rightarrow> MoveTarget \<Rightarrow> Reference list" where
  "moveReferences env request t =
     findReferences env (declarationNode t) ''Function'' (sourceUri request)"

definition sourceHasReference :: "MoveEnv \<Rightarrow> MoveParams \<Rightarrow> MoveTarget \<Rightarrow> bool" where
  "sourceHasReference env request t =
     (find (\<lambda>ref.
              referenceUri ref = sourceUri request \<and>
              map_option text_of (parent (referenceNode ref)) \<noteq> map_option text_of (typeNode t) \<and>
              map_option text_of (Option.bind (parent (referenceNode ref)) parent)
                \<noteq> Some (text_of (declarationNode t)) \<and>
              type_of (referenceNode ref) \<noteq> ''exposed_value'')
        (moveReferences env request t) \<noteq> None)"

text \<open>The callbacks of the two \<^verbatim>\<open>referenceUris.forEach\<close> loops.\<close>

definition removeOldImport ::
  "MoveEnv \<Rightarrow> MoveTarget \<Rightarrow> string \<Rightarrow> Changes \<Rightarrow> error + Changes" where
  "removeOldImport env t refUri changes =
     (let changes' = (if map_of changes refUri = None then AList.update refUri [] changes
                      else changes)
      in case getTree env refUri of
           None \<Rightarrow> Inr changes'
         | Some refTree \<Rightarrow>
             if destinationName (targetDestination t) \<noteq> []
             then push_if refUri (removeValueFromImport env refTree (moduleName t) (functionName t))
                    changes'
             else Inr changes')"

definition addNewImport ::
  "MoveEnv \<Rightarrow> MoveParams \<Rightarrow> MoveTarget \<Rightarrow> string \<Rightarrow> Changes \<Rightarrow> error + Changes" where
  "addNewImport env request t refUri changes =
     (if refUri = sourceUri request \<and> \<not> sourceHasReference env request t then Inr changes
      else case getTree env refUri of
             None \<Rightarrow> Inr changes
           | Some refTree \<Rightarrow>
               push_if refUri (addImport env refTree (destinationModuleName t) (functionName t))
                 changes)"

text \<open>
  The second part of \<^verbatim>\<open>handleMoveRequest\<close>: the object \<^verbatim>\<open>changes\<close> as it stands when
  \<^verbatim>\<open>applyEdit\<close> is reached, statement by statement.
\<close>

definition stageChanges :: "MoveEnv \<Rightarrow> MoveParams \<Rightarrow> MoveTarget \<Rightarrow> error + Changes" where
  "stageChanges env request t =
     (let src = sourceUri request;
          dst = destinationUri (targetDestination t);
          changes0 = AList.update dst [] (AList.update src [] []);
          referenceUris = js_Set (map referenceUri (moveReferences env request t));
          remaining = removeAll dst referenceUris
      in case push_js src (removeFromSource t) changes0 of Inl e \<Rightarrow> Inl e | Inr changes1 \<Rightarrow>
         case push_js dst (addToDestination t) changes1 of Inl e \<Rightarrow> Inl e | Inr changes2 \<Rightarrow>
         case push_if src (unexposedValueInModule env (sourceTree t) (functionName t)) changes2 of
           Inl e \<Rightarrow> Inl e | Inr changes3 \<Rightarrow>
         case forEach_js (removeOldImport env t) referenceUris changes3 of
           Inl e \<Rightarrow> Inl e | Inr changes4 \<Rightarrow>
         case (if remaining \<noteq> []
               then push_if dst (exposeValueInModule env (destinationTree t) (functionName t)) changes4
               else Inr changes4) of
           Inl e \<Rightarrow> Inl e | Inr changes5 \<Rightarrow>
         forEach_js (addNewImport env request t) remaining changes5)"

text \<open>
  \<^verbatim>\<open>handleMoveRequest\<close>: the arguments of the calls of \<^verbatim>\<open>connection.workspace.applyEdit\<close> it
  makes, in order, or the exception it raises.
\<close>

definition handleMoveRequest :: "MoveEnv \<Rightarrow> MoveParams \<Rightarrow> error + Changes list" where
  "handleMoveRequest env request =
     (case findMoveTarget env request of
        None \<Rightarrow> Inr []
      | Some t \<Rightarrow>
          (case stageChanges env request t of
             Inl e \<Rightarrow> Inl e
           | Inr changes \<Rightarrow> Inr [changes]))"

text \<open>The edits staged for a file.\<close>

definition edits_for :: "Changes \<Rightarrow> string \<Rightarrow> TextEdit list" where
  "edits_for changes u = (case map_of changes u of None \<Rightarrow> [] | Some es \<Rightarrow> es)"

section \<open>Sample requests for the handlers\<close>

definition sample_root :: string where
  "sample_root = ''c:'' @ [CHR 0x5C] @ ''proj''"

definition sample_file :: "string \<Rightarrow> string" where
  "sample_file f = ''file:///c:'' @ [CHR 0x5C] @ ''proj'' @ [CHR 0x5C] @ ''src'' @ [CHR 0x5C] @ f"

definition sample_node :: SyntaxNode where
  "sample_node = SyntaxNode ''upper_case_identifier'' ''Foo'' None None None
     \<lparr>row = 0, column = 0\<rparr> \<lparr>row = 0, column = 3\<rparr>"

definition sample_tree :: Tree where
  "sample_tree = \<lparr>rootNode = sample_node\<rparr>"

definition sample_index :: "ITreeContainer list" where
  "sample_index =
     [\<lparr>uri = sample_file ''A.elm'', writeable = True, tree = sample_tree\<rparr>,
      \<lparr>uri = sample_file ''B.elm'', writeable = True, tree = sample_tree\<rparr>,
      \<lparr>uri = ''file:///home/elm/Core.elm'', writeable = False, tree = sample_tree\<rparr>]"

definition sample_move :: MoveParams where
  "sample_move =
     \<lparr>sourceUri = sample_file ''A.elm'', rangeStart = \<lparr>line = 0, character = 0\<rparr>,
      destination = None\<rparr>"

definition sample_hover_env :: "(unit, unit) HoverEnv" where
  "sample_hover_env =
     \<lparr>getByUri = (\<lambda>u. if u = sample_file ''A.elm''
                         then Some \<lparr>uri = u, writeable = True, tree = sample_tree\<rparr> else None),
      getImports = (),
      getNamedDescendantForPosition = (\<lambda>n p. Inr n),
      findDefinitionNodeByReferencingNode = (\<lambda>n u t i. Inr None),
      createHintFromFunctionParameter = (\<lambda>n. Inr None),
      createHint = (\<lambda>n. Inr None)\<rparr>"

text \<open>
  A move of the function \<^verbatim>\<open>f\<close>, declared with a type annotation in \<^verbatim>\<open>A.elm\<close> and used in
  \<^verbatim>\<open>C.elm\<close>, to \<^verbatim>\<open>B.elm\<close>.
\<close>

definition annotation_node :: SyntaxNode where
  "annotation_node = SyntaxNode ''type_annotation'' ''f : Int'' None None None
     \<lparr>row = 2, column = 0\<rparr> \<lparr>row = 2, column = 7\<rparr>"

definition declaration_node :: SyntaxNode where
  "declaration_node = SyntaxNode ''value_declaration'' ''f = 1'' None (Some annotation_node) None
     \<lparr>row = 3, column = 0\<rparr> \<lparr>row = 3, column = 5\<rparr>"

definition left_node :: SyntaxNode where
  "left_node = SyntaxNode ''function_declaration_left'' ''f'' (Some declaration_node) None None
     \<lparr>row = 3, column = 0\<rparr> \<lparr>row = 3, column = 1\<rparr>"

definition name_node :: SyntaxNode where
  "name_node = SyntaxNode ''lower_case_identifier'' ''f'' (Some left_node) None None
     \<lparr>row = 3, column = 0\<rparr> \<lparr>row = 3, column = 1\<rparr>"

definition module_node :: "string \<Rightarrow> SyntaxNode" where
  "module_node m = SyntaxNode ''upper_case_qid'' m None None None
     \<lparr>row = 0, column = 7\<rparr> \<lparr>row = 0, column = 8\<rparr>"

definition file_tree :: "string \<Rightarrow> Tree" where
  "file_tree m = \<lparr>rootNode = SyntaxNode ''file'' m None None None
     \<lparr>row = 0, column = 0\<rparr> \<lparr>row = 9, column = 0\<rparr>\<rparr>"

definition use_node :: SyntaxNode where
  "use_node = SyntaxNode ''value_qid'' ''f'' None None None
     \<lparr>row = 5, column = 4\<rparr> \<lparr>row = 5, column = 5\<rparr>"

definition import_edit :: "string \<Rightarrow> TextEdit" where
  "import_edit t = TextEdit_insert \<lparr>line = 1, character = 0\<rparr> t"

definition sample_move_env :: MoveEnv where
  "sample_move_env =
     \<lparr>getTree = (\<lambda>u. if u = ''A'' then Some (file_tree ''A'')
                        else if u = ''B'' then Some (file_tree ''B'')
                        else if u = ''C'' then Some (file_tree ''C'') else None),
      namedDescendantForPosition = (\<lambda>n p. name_node),
      getModuleNameNode = (\<lambda>t. Some (module_node (text_of (rootNode t)))),
      findReferences = (\<lambda>n k u. [\<lparr>referenceNode = name_node, referenceUri = ''A''\<rparr>,
                                  \<lparr>referenceNode = use_node, referenceUri = ''C''\<rparr>]),
      unexposedValueInModule = (\<lambda>t f. Some (import_edit ''unexpose'')),
      removeValueFromImport = (\<lambda>t m f. if text_of (rootNode t) = ''C''
                                        then Some (import_edit ''remove import'') else None),
      exposeValueInModule = (\<lambda>t f. Some (import_edit ''expose'')),
      addImport = (\<lambda>t m f. Some (import_edit ''add import''))\<rparr>"

definition sample_move_request :: MoveParams where
  "sample_move_request =
     \<lparr>sourceUri = ''A'', rangeStart = \<lparr>line = 3, character = 0\<rparr>,
      destination = Some \<lparr>destinationName = ''B.elm'', destinationPath = ''src'',
                           destinationUri = ''B''\<rparr>\<rparr>"

text \<open>The edits of one file grow: every file staged stays staged, with at least its edits.\<close>

definition grows :: "Changes \<Rightarrow> Changes \<Rightarrow> bool" where
  "grows changes changes' =
     (\<forall>u es. map_of changes u = Some es \<longrightarrow>
        (\<exists>es'. map_of changes' u = Some es' \<and> set es \<subseteq> set es'))"

text \<open>
  The map \<^verbatim>\<open>changes\<close> holds every edit of the move: the removal from the source file,
  the insertion into the destination, the edit that unexposes the function in the source
  when there is one, the edit that exposes it in the destination when a reference lies
  outside the destination, and for every referencing file an entry with the removal of
  the old import and the new import, where the handler computes them.
\<close>

definition stages_all :: "MoveEnv \<Rightarrow> MoveParams \<Rightarrow> MoveTarget \<Rightarrow> Changes \<Rightarrow> bool" where
  "stages_all env request t changes =
     (let src = sourceUri request;
          dst = destinationUri (targetDestination t);
          refs = moveReferences env request t
      in removeFromSource t \<in> set (edits_for changes src) \<and>
         addToDestination t \<in> set (edits_for changes dst) \<and>
         (\<forall>e. unexposedValueInModule env (sourceTree t) (functionName t) = Some e \<longrightarrow>
              e \<in> set (edits_for changes src)) \<and>
         (\<forall>e. (\<exists>ref\<in>set refs. referenceUri ref \<noteq> dst) \<and>
              exposeValueInModule env (destinationTree t) (functionName t) = Some e \<longrightarrow>
              e \<in> set (edits_for changes dst)) \<and>
         (\<forall>ref\<in>set refs.
            map_of changes (referenceUri ref) \<noteq> None \<and>
            (\<forall>refTree e.
               getTree env (referenceUri ref) = Some refTree \<and>
               destinationName (targetDestination t) \<noteq> [] \<and>
               removeValueFromImport env refTree (moduleName t) (functionName t) = Some e \<longrightarrow>
               e \<in> set (edits_for changes (referenceUri ref))) \<and>
            (\<forall>refTree e.
               referenceUri ref \<noteq> dst \<and>
               \<not> (referenceUri ref = src \<and> \<not> sourceHasReference env request t) \<and>
               getTree env (referenceUri ref) = Some refTree \<and>
               addImport env refTree (destinationModuleName t) (functionName t) = Some e \<longrightarrow>
               e \<in> set (edits_for changes (referenceUri ref)))))"

section \<open>The comparison of versions on the numeric reading\<close>

lemma floor_log2_le: "floor_log2 n \<le> k \<longleftrightarrow> n < 2 ^ Suc k"
proof (induction k arbitrary: n)
  case 0
  show ?case by (subst floor_log2.simps) simp
next
  case (Suc k)
  show ?case
  proof (cases "n < 2")
    case True
    have "(2::nat) \<le> 2 ^ Suc (Suc k)" by simp
    with True have "n < 2 ^ Suc (Suc k)" by (rule less_le_trans)
    with True show ?thesis by (subst floor_log2.simps) simp
  next
    case False
    then have "floor_log2 n = Suc (floor_log2 (n div 2))"
      by (subst floor_log2.simps) simp
    moreover have "n div 2 < 2 ^ Suc k \<longleftrightarrow> n < 2 ^ Suc (Suc k)"
      by (simp add: div_less_iff_less_mult)
    ultimately show ?thesis
      using Suc.IH[of "n div 2"] by simp
  qed
qed

lemma floor_log2_eq: "2 ^ Suc k \<le> n \<Longrightarrow> n < 2 ^ Suc (Suc k) \<Longrightarrow> floor_log2 n = Suc k"
  using floor_log2_le[of n k] floor_log2_le[of n "Suc k"] by simp

lemma to_double_exact: "n < 2 ^ 53 \<Longrightarrow> to_double n = Num n"
  using floor_log2_le[of n 52] by (simp add: to_double_def)

lemma to_double_not_NaN: "to_double n \<noteq> NaN"
  by (simp add: to_double_def Let_def)

lemma to_double_big:
  "to_double 9007199254740992 = Num 9007199254740992"
  "to_double 9007199254740993 = Num 9007199254740992"
proof -
  have "floor_log2 9007199254740992 = Suc 52" "floor_log2 9007199254740993 = Suc 52"
    by (rule floor_log2_eq; simp)+
  then show "to_double 9007199254740992 = Num 9007199254740992"
    "to_double 9007199254740993 = Num 9007199254740992"
    by (simp_all add: to_double_def Let_def)
qed

lemma to_double_examples:
  "to_double 9007199254740995 = Num 9007199254740996"
  "to_double 9007199254740994 = Num 9007199254740994"
  "to_double 18014398509481986 = Num 18014398509481984"
  "to_double 18014398509481990 = Num 18014398509481992"
proof -
  have "floor_log2 9007199254740995 = Suc 52" "floor_log2 9007199254740994 = Suc 52"
    by (rule floor_log2_eq; simp)+
  then show "to_double 9007199254740995 = Num 9007199254740996"
    "to_double 9007199254740994 = Num 9007199254740994"
    by (simp_all add: to_double_def Let_def)
  have "floor_log2 18014398509481986 = Suc 53" "floor_log2 18014398509481990 = Suc 53"
    by (rule floor_log2_eq; simp)+
  then show "to_double 18014398509481986 = Num 18014398509481984"
    "to_double 18014398509481990 = Num 18014398509481992"
    by (simp_all add: to_double_def Let_def)
qed

lemma to_double_overflow: "to_double (2 ^ 1024) = Infinity"
proof -
  have "floor_log2 (2 ^ 1024) = Suc 1023"
    by (rule floor_log2_eq) simp_all
  then show ?thesis
    by (simp add: to_double_def Let_def)
qed

lemma decimal_big:
  "decimal ''9007199254740992'' = 9007199254740992"
  "decimal ''9007199254740993'' = 9007199254740993"
  "decimal ''0'' = 0"
  by (simp_all add: decimal_def digit_value_def)

lemma string_parseVersion: "string (parseVersion s) = s"
  by (simp add: parseVersion_def Let_def)

lemma js_gt_rank: "x \<noteq> NaN \<Longrightarrow> y \<noteq> NaN \<Longrightarrow> js_gt x y \<longleftrightarrow> number_rank y < number_rank x"
  by (cases x; cases y) (simp_all add: number_rank_def)

lemma number_rank_inject: "x \<noteq> NaN \<Longrightarrow> y \<noteq> NaN \<Longrightarrow> number_rank x = number_rank y \<longleftrightarrow> x = y"
  by (cases x; cases y) (simp_all add: number_rank_def)

lemma Number_js_digits: "digits s \<Longrightarrow> Number_js (Some s) = to_double (decimal s)"
  by (simp add: digits_def Number_js_def)

lemma versionCompare_loop_unroll:
  "versionCompare_loop (a # b # c # r) (a' # b' # c' # r') 0 =
     (let n0 = Number_js (Some a); m0 = Number_js (Some a');
          n1 = Number_js (Some b); m1 = Number_js (Some b');
          n2 = Number_js (Some c); m2 = Number_js (Some c')
      in if js_gt n0 m0 then 1 else if js_gt m0 n0 then - 1
         else if js_gt n1 m1 then 1 else if js_gt m1 n1 then - 1
         else if js_gt n2 m2 then 1 else if js_gt m2 n2 then - 1 else 0)"
  by (simp add: at_js_def Let_def)

lemma versionCompare_key:
  assumes "numeric_version a" and "numeric_version b"
  shows "versionCompare a b = compare3 (version_key a) (version_key b)"
proof -
  from assms(1) obtain a0 a1 a2 ar where
    pa: "split_js CHR ''.'' (string a) = a0 # a1 # a2 # ar" and da: "digits a0" "digits a1" "digits a2"
    by (auto simp: numeric_version_def split: list.splits)
  from assms(2) obtain b0 b1 b2 br where
    pb: "split_js CHR ''.'' (string b) = b0 # b1 # b2 # br" and db: "digits b0" "digits b1" "digits b2"
    by (auto simp: numeric_version_def split: list.splits)
  show ?thesis
    unfolding versionCompare_def pa pb versionCompare_loop_unroll
    by (auto simp: Number_js_digits da db version_key_def pa pb compare3_def Let_def less_prod_def
        js_gt_rank to_double_not_NaN)
qed

lemma compare3_simps:
  "compare3 x y = - 1 \<longleftrightarrow> x < y"
  "compare3 x y = 0 \<longleftrightarrow> x = y"
  "compare3 x y = 1 \<longleftrightarrow> y < x"
  "compare3 x y \<noteq> - 1 \<longleftrightarrow> y \<le> x"
  by (auto simp: compare3_def)

lemma meet_lower_numeric:
  "numeric_version (fst x) \<Longrightarrow> numeric_version (fst y) \<Longrightarrow> numeric_version (fst (meet_lower x y))"
  by (simp add: meet_lower_def)

lemma meet_upper_numeric:
  "numeric_version (fst x) \<Longrightarrow> numeric_version (fst y) \<Longrightarrow> numeric_version (fst (meet_upper x y))"
  by (simp add: meet_upper_def)

lemma constraintIntersect_ends:
  assumes "numeric_constraint a" and "numeric_constraint b"
  shows "constraintIntersect a b =
           of_ends (meet_lower (lower_end a) (lower_end b)) (meet_upper (upper_end a) (upper_end b))"
proof -
  have n: "numeric_version (lower a)" "numeric_version (lower b)"
    "numeric_version (upper a)" "numeric_version (upper b)"
    using assms by (simp_all add: numeric_constraint_def)
  have l: "versionCompare (lower a) (lower b) = compare3 (version_key (lower a)) (version_key (lower b))"
    by (rule versionCompare_key) (rule n)+
  have u: "versionCompare (upper a) (upper b) = compare3 (version_key (upper a)) (version_key (upper b))"
    by (rule versionCompare_key) (rule n)+
  have x: "versionCompare v w = compare3 (version_key v) (version_key w)"
    if "v \<in> {lower a, lower b}" "w \<in> {upper a, upper b}" for v w
    using that n by (auto intro: versionCompare_key)
  show ?thesis
    unfolding constraintIntersect_def l u
    by (auto simp: Let_def compare3_simps x of_ends_def meet_lower_def meet_upper_def
        lower_end_def upper_end_def compare3_def)
qed

lemma key_meet_lower: "version_key (fst (meet_lower x y)) = max (version_key (fst x)) (version_key (fst y))"
  by (auto simp: meet_lower_def max_def)

lemma key_meet_upper: "version_key (fst (meet_upper x y)) = min (version_key (fst x)) (version_key (fst y))"
  by (auto simp: meet_upper_def min_def)

lemma meet_lower_assoc: "meet_lower (meet_lower x y) z = meet_lower x (meet_lower y z)"
  by (cases x; cases y; cases z) (auto simp: meet_lower_def merge_def)

lemma meet_upper_assoc: "meet_upper (meet_upper x y) z = meet_upper x (meet_upper y z)"
  by (cases x; cases y; cases z) (auto simp: meet_upper_def merge_def)

lemma filterSemver_key:
  "numeric_version a \<Longrightarrow> numeric_version b \<Longrightarrow>
   filterSemver a b operator = within_bound operator (version_key a) (version_key b)"
  by (cases operator) (auto simp: filterSemver_def versionCompare_key compare3_def within_bound_def)

lemma satisfies_key:
  "numeric_version v \<Longrightarrow> numeric_constraint c \<Longrightarrow>
   versionSatifiesConstraint v c =
     (within_bound (lowerOperator c) (version_key (lower c)) (version_key v) \<and>
      within_bound (upperOperator c) (version_key v) (version_key (upper c)))"
  by (simp add: versionSatifiesConstraint_def filterSemver_key numeric_constraint_def)

lemma constraintIntersect_numeric:
  assumes "numeric_constraint a" and "numeric_constraint b" and "constraintIntersect a b = Some r"
  shows "numeric_constraint r"
  using assms(3) assms(1,2) unfolding constraintIntersect_ends[OF assms(1,2)]
  by (auto simp: of_ends_def numeric_constraint_def split: if_splits
      intro!: meet_lower_numeric meet_upper_numeric simp: lower_end_def upper_end_def)

lemma within_meet_lower:
  "within_bound (snd (meet_lower x y)) (version_key (fst (meet_lower x y))) k \<longleftrightarrow>
   within_bound (snd x) (version_key (fst x)) k \<and> within_bound (snd y) (version_key (fst y)) k"
  by (cases x; cases y; cases "snd x"; cases "snd y")
     (auto simp: meet_lower_def within_bound_def merge_def)

lemma within_meet_upper:
  "within_bound (snd (meet_upper x y)) k (version_key (fst (meet_upper x y))) \<longleftrightarrow>
   within_bound (snd x) k (version_key (fst x)) \<and> within_bound (snd y) k (version_key (fst y))"
  by (cases x; cases y; cases "snd x"; cases "snd y")
     (auto simp: meet_upper_def within_bound_def merge_def)

lemma within_le: "within_bound operator x y \<Longrightarrow> x \<le> y"
  by (cases operator) (auto simp: within_bound_def)

lemma of_ends_bind:
  "Option.bind (of_ends l u) f = (if version_key (fst l) < version_key (fst u)
      then f \<lparr>lower = fst l, upper = fst u, lowerOperator = snd l, upperOperator = snd u\<rparr> else None)"
  by (simp add: of_ends_def)

lemma constraintIntersect_assoc:
  assumes "numeric_constraint c1" and "numeric_constraint c2" and "numeric_constraint c3"
  shows "Option.bind (constraintIntersect c1 c2) (\<lambda>c. constraintIntersect c c3) =
         Option.bind (constraintIntersect c2 c3) (constraintIntersect c1)"
proof -
  let ?l12 = "meet_lower (lower_end c1) (lower_end c2)"
  let ?u12 = "meet_upper (upper_end c1) (upper_end c2)"
  let ?l23 = "meet_lower (lower_end c2) (lower_end c3)"
  let ?u23 = "meet_upper (upper_end c2) (upper_end c3)"
  let ?r12 = "\<lparr>lower = fst ?l12, upper = fst ?u12, lowerOperator = snd ?l12, upperOperator = snd ?u12\<rparr>"
  let ?r23 = "\<lparr>lower = fst ?l23, upper = fst ?u23, lowerOperator = snd ?l23, upperOperator = snd ?u23\<rparr>"
  let ?L = "meet_lower (lower_end c1) ?l23"
  let ?U = "meet_upper (upper_end c1) ?u23"
  have n12: "numeric_constraint ?r12"
    using assms by (simp add: numeric_constraint_def meet_lower_numeric meet_upper_numeric
        lower_end_def upper_end_def)
  have n23: "numeric_constraint ?r23"
    using assms by (simp add: numeric_constraint_def meet_lower_numeric meet_upper_numeric
        lower_end_def upper_end_def)
  have e12: "lower_end ?r12 = ?l12" "upper_end ?r12 = ?u12"
    by (simp_all add: lower_end_def upper_end_def)
  have e23: "lower_end ?r23 = ?l23" "upper_end ?r23 = ?u23"
    by (simp_all add: lower_end_def upper_end_def)
  have left: "Option.bind (constraintIntersect c1 c2) (\<lambda>c. constraintIntersect c c3) =
      (if version_key (fst ?l12) < version_key (fst ?u12) then of_ends ?L ?U else None)"
    by (simp add: constraintIntersect_ends[OF assms(1,2)] of_ends_bind
        constraintIntersect_ends[OF n12 assms(3)] e12 meet_lower_assoc meet_upper_assoc)
  have right: "Option.bind (constraintIntersect c2 c3) (constraintIntersect c1) =
      (if version_key (fst ?l23) < version_key (fst ?u23) then of_ends ?L ?U else None)"
    by (simp add: constraintIntersect_ends[OF assms(2,3)] of_ends_bind
        constraintIntersect_ends[OF assms(1) n23] e23)
  have kL: "version_key (fst ?l12) \<le> version_key (fst ?L)" "version_key (fst ?l23) \<le> version_key (fst ?L)"
    by (auto simp: key_meet_lower le_max_iff_disj)
  have kU: "version_key (fst ?U) \<le> version_key (fst ?u12)" "version_key (fst ?U) \<le> version_key (fst ?u23)"
    by (auto simp: key_meet_upper min_le_iff_disj)
  have "of_ends ?L ?U = None" if "\<not> version_key (fst ?l12) < version_key (fst ?u12)"
  proof -
    from that kL(1) kU(1) have "\<not> version_key (fst ?L) < version_key (fst ?U)"
      by (meson leD leI order_trans)
    then show ?thesis by (simp add: of_ends_def)
  qed
  moreover have "of_ends ?L ?U = None" if "\<not> version_key (fst ?l23) < version_key (fst ?u23)"
  proof -
    from that kL(2) kU(2) have "\<not> version_key (fst ?L) < version_key (fst ?U)"
      by (meson leD leI order_trans)
    then show ?thesis by (simp add: of_ends_def)
  qed
  ultimately show ?thesis
    unfolding left right by simp
qed

lemma meet_lower_comm:
  "version_key (fst x) = version_key (fst y) \<longrightarrow> fst x = fst y \<Longrightarrow> meet_lower x y = meet_lower y x"
  by (cases x; cases y) (auto simp: meet_lower_def merge_def)

lemma meet_upper_comm:
  "version_key (fst x) = version_key (fst y) \<longrightarrow> fst x = fst y \<Longrightarrow> meet_upper x y = meet_upper y x"
  by (cases x; cases y) (auto simp: meet_upper_def merge_def)

lemma constraintIntersect_comm_exact:
  assumes "numeric_constraint c1" and "numeric_constraint c2"
    and "versionCompare (lower c1) (lower c2) = 0 \<longrightarrow> lower c1 = lower c2"
    and "versionCompare (upper c1) (upper c2) = 0 \<longrightarrow> upper c1 = upper c2"
  shows "constraintIntersect c1 c2 = constraintIntersect c2 c1"
proof -
  have n: "numeric_version (lower c1)" "numeric_version (lower c2)"
    "numeric_version (upper c1)" "numeric_version (upper c2)"
    using assms by (simp_all add: numeric_constraint_def)
  from assms(3,4) have "version_key (lower c1) = version_key (lower c2) \<longrightarrow> lower c1 = lower c2"
    "version_key (upper c1) = version_key (upper c2) \<longrightarrow> upper c1 = upper c2"
    by (simp_all add: versionCompare_key n compare3_def)
  then have "meet_lower (lower_end c1) (lower_end c2) = meet_lower (lower_end c2) (lower_end c1)"
    "meet_upper (upper_end c1) (upper_end c2) = meet_upper (upper_end c2) (upper_end c1)"
    by (intro meet_lower_comm meet_upper_comm; simp add: lower_end_def upper_end_def)+
  then show ?thesis
    by (simp add: constraintIntersect_ends assms)
qed

lemma meet_lower_comm_key:
  "version_key (fst (meet_lower x y)) = version_key (fst (meet_lower y x)) \<and>
   snd (meet_lower x y) = snd (meet_lower y x)"
  by (cases x; cases y) (auto simp: meet_lower_def merge_def)

lemma meet_upper_comm_key:
  "version_key (fst (meet_upper x y)) = version_key (fst (meet_upper y x)) \<and>
   snd (meet_upper x y) = snd (meet_upper y x)"
  by (cases x; cases y) (auto simp: meet_upper_def merge_def)

lemma of_ends_same_interval:
  assumes "version_key (fst l) = version_key (fst l')" and "version_key (fst u) = version_key (fst u')"
    and "snd l = snd l'" and "snd u = snd u'"
    and "numeric_version (fst l)" "numeric_version (fst l')"
    and "numeric_version (fst u)" "numeric_version (fst u')"
  shows "rel_option same_interval (of_ends l u) (of_ends l' u')"
  using assms by (simp add: of_ends_def same_interval_def versionCompare_key compare3_def)

lemma constraintIntersect_comm_interval:
  assumes "numeric_constraint c1" and "numeric_constraint c2"
  shows "rel_option same_interval (constraintIntersect c1 c2) (constraintIntersect c2 c1)"
proof -
  have n: "numeric_version (fst (lower_end c1))" "numeric_version (fst (lower_end c2))"
    "numeric_version (fst (upper_end c1))" "numeric_version (fst (upper_end c2))"
    using assms by (simp_all add: numeric_constraint_def lower_end_def upper_end_def)
  show ?thesis
    unfolding constraintIntersect_ends[OF assms] constraintIntersect_ends[OF assms(2,1)]
    by (rule of_ends_same_interval)
       (simp_all add: meet_lower_comm_key meet_upper_comm_key meet_lower_numeric meet_upper_numeric n)
qed

lemma versionCompare_range: "versionCompare a b \<in> {- 1, 0, 1}"
proof -
  have "versionCompare_loop pa pb 3 = 0" for pa pb
    by simp
  then have "versionCompare_loop pa pb 2 \<in> {- 1, 0, 1}" for pa pb
    by (subst versionCompare_loop.simps) (simp add: Let_def)
  then have "versionCompare_loop pa pb 1 \<in> {- 1, 0, 1}" for pa pb
    by (subst versionCompare_loop.simps) (simp add: Let_def)
  then have "versionCompare_loop pa pb 0 \<in> {- 1, 0, 1}" for pa pb
    by (subst versionCompare_loop.simps) (simp add: Let_def)
  then show ?thesis
    by (simp add: versionCompare_def)
qed

lemma takeWhile_digits: "digits d \<Longrightarrow> parseInt_js (Some d) = to_double (decimal d)"
  by (auto simp: digits_def parseInt_js_def Let_def list_all_iff takeWhile_eq_all_conv[THEN iffD2])

lemma parseVersion_triple:
  assumes "numeric_version (parseVersion s)"
  shows "numeric_triple (parseVersion s) = Some (version_key (parseVersion s))"
proof -
  have str: "string (parseVersion s) = s"
    by (simp add: parseVersion_def Let_def)
  from assms obtain a b c r where
    p: "split_js CHR ''.'' s = a # b # c # r" and d: "digits a" "digits b" "digits c"
    by (auto simp: numeric_version_def str split: list.splits)
  show ?thesis
    by (simp add: numeric_triple_def version_key_def str p parseVersion_def Let_def at_js_def
        takeWhile_digits Number_js_digits to_double_not_NaN d)
qed

lemma versionCompare_fields:
  "versionCompare (a\<lparr>major := x1, minor := x2, patch := x3\<rparr>) (b\<lparr>major := y1, minor := y2, patch := y3\<rparr>)
     = versionCompare a b"
  by (simp add: versionCompare_def)

lemma split_big:
  "split_js CHR ''.'' ''9007199254740992.0.0'' = [''9007199254740992'', ''0'', ''0'']"
  "split_js CHR ''.'' ''9007199254740993.0.0'' = [''9007199254740993'', ''0'', ''0'']"
  by code_simp+

lemma digits_big: "digits ''9007199254740992''" "digits ''9007199254740993''" "digits ''0''"
  by code_simp+

lemma numeric_big:
  "numeric_version (parseVersion ''9007199254740992.0.0'')"
  "numeric_version (parseVersion ''9007199254740993.0.0'')"
  by (simp_all add: numeric_version_def string_parseVersion split_big digits_big)

lemma key_big:
  "version_key (parseVersion ''9007199254740992.0.0'') = (9007199254740992, 0, 0)"
  "version_key (parseVersion ''9007199254740993.0.0'') = (9007199254740992, 0, 0)"
  by (simp_all add: version_key_def string_parseVersion split_big Number_js_digits digits_big
      decimal_big to_double_big to_double_exact number_rank_def numeral_eq_enat zero_enat_def)

lemma written_big:
  "written_key (parseVersion ''9007199254740992.0.0'') = (9007199254740992, 0, 0)"
  "written_key (parseVersion ''9007199254740993.0.0'') = (9007199254740993, 0, 0)"
  by (simp_all add: written_key_def string_parseVersion split_big decimal_big)

lemma c_big_simps:
  "lower c_big = parseVersion ''9007199254740992.0.0''"
  "upper c_big = parseVersion ''9007199254740993.0.0''"
  "numeric_constraint c_big"
  by (simp_all add: c_big_def mkConstraint_def numeric_constraint_def numeric_big)

lemma c_big_empty: "constraintIntersect c_big c_big = None"
  by (simp add: constraintIntersect_ends c_big_simps of_ends_def key_meet_lower key_meet_upper
      lower_end_def upper_end_def key_big)

lemma compare_big:
  "versionCompare (parseVersion ''9007199254740993.0.0'') (parseVersion ''9007199254740992.0.0'') = 0"
  "versionCompare (parseVersion ''9007199254740992.0.0'') (parseVersion ''9007199254740993.0.0'') = 0"
  by (simp_all add: versionCompare_key numeric_big key_big compare3_def)

lemma major_big: "major (parseVersion ''9007199254740993.0.0'') = Num 9007199254740992"
  by (simp add: parseVersion_def Let_def split_big at_js_def takeWhile_digits digits_big
      decimal_big to_double_big)

section \<open>Claims about the constraint algebra\<close>

text \<open>
  Claim C1, as amended. For a version and two constraints whose string forms are dotted
  digit groups: the version satisfies \<^verbatim>\<open>constraintIntersect(c1, c2)\<close> (an absent
  intersection satisfying no version) if and only if it satisfies both \<^verbatim>\<open>c1\<close> and
  \<^verbatim>\<open>c2\<close> and no lower bound of the two constraints compares equal to an upper bound
  of the two. When a lower bound meets an upper bound the intersection is absent, by
  the test \<^verbatim>\<open>versionCompare(newLower, newUpper) !== -1\<close>, although that one version may
  satisfy both constraints through \<^verbatim>\<open><=\<close>.
\<close>

theorem intersect_satisfies:
  assumes "numeric_version v" and "numeric_constraint c1" and "numeric_constraint c2"
  shows "satisfies_opt v (constraintIntersect c1 c2) \<longleftrightarrow>
           (versionSatifiesConstraint v c1 \<and> versionSatifiesConstraint v c2 \<and>
            versionCompare (lower c1) (upper c1) \<noteq> 0 \<and>
            versionCompare (lower c1) (upper c2) \<noteq> 0 \<and>
            versionCompare (lower c2) (upper c1) \<noteq> 0 \<and>
            versionCompare (lower c2) (upper c2) \<noteq> 0)"
proof -
  let ?l = "meet_lower (lower_end c1) (lower_end c2)"
  let ?u = "meet_upper (upper_end c1) (upper_end c2)"
  let ?kv = "version_key v"
  have n: "numeric_version (lower c1)" "numeric_version (lower c2)"
    "numeric_version (upper c1)" "numeric_version (upper c2)"
    using assms by (simp_all add: numeric_constraint_def)
  have cmp: "versionCompare (lower c1) (upper c1) = compare3 (version_key (lower c1)) (version_key (upper c1))"
    "versionCompare (lower c1) (upper c2) = compare3 (version_key (lower c1)) (version_key (upper c2))"
    "versionCompare (lower c2) (upper c1) = compare3 (version_key (lower c2)) (version_key (upper c1))"
    "versionCompare (lower c2) (upper c2) = compare3 (version_key (lower c2)) (version_key (upper c2))"
    by (simp_all add: versionCompare_key n)
  have both: "versionSatifiesConstraint v c1 \<and> versionSatifiesConstraint v c2 \<longleftrightarrow>
      within_bound (snd ?l) (version_key (fst ?l)) ?kv \<and> within_bound (snd ?u) ?kv (version_key (fst ?u))"
    unfolding within_meet_lower within_meet_upper
    by (auto simp: satisfies_key assms lower_end_def upper_end_def)
  show ?thesis
  proof (cases "version_key (fst ?l) < version_key (fst ?u)")
    case True
    then have ne: "version_key (lower c1) < version_key (upper c1)"
      "version_key (lower c1) < version_key (upper c2)"
      "version_key (lower c2) < version_key (upper c1)"
      "version_key (lower c2) < version_key (upper c2)"
      by (simp_all add: key_meet_lower key_meet_upper lower_end_def upper_end_def)
    have "satisfies_opt v (constraintIntersect c1 c2) \<longleftrightarrow>
        within_bound (snd ?l) (version_key (fst ?l)) ?kv \<and> within_bound (snd ?u) ?kv (version_key (fst ?u))"
      using True n
      by (simp add: constraintIntersect_ends assms of_ends_def satisfies_opt_def satisfies_key
          numeric_constraint_def meet_lower_numeric meet_upper_numeric lower_end_def upper_end_def)
    then show ?thesis
      using ne by (simp add: both cmp compare3_def)
  next
    case False
    then have none: "\<not> satisfies_opt v (constraintIntersect c1 c2)"
      by (simp add: constraintIntersect_ends assms of_ends_def satisfies_opt_def)
    have "\<not> (versionSatifiesConstraint v c1 \<and> versionSatifiesConstraint v c2 \<and>
            versionCompare (lower c1) (upper c1) \<noteq> 0 \<and>
            versionCompare (lower c1) (upper c2) \<noteq> 0 \<and>
            versionCompare (lower c2) (upper c1) \<noteq> 0 \<and>
            versionCompare (lower c2) (upper c2) \<noteq> 0)"
    proof
      assume a: "versionSatifiesConstraint v c1 \<and> versionSatifiesConstraint v c2 \<and>
            versionCompare (lower c1) (upper c1) \<noteq> 0 \<and>
            versionCompare (lower c1) (upper c2) \<noteq> 0 \<and>
            versionCompare (lower c2) (upper c1) \<noteq> 0 \<and>
            versionCompare (lower c2) (upper c2) \<noteq> 0"
      then have w: "within_bound (snd ?l) (version_key (fst ?l)) ?kv" "within_bound (snd ?u) ?kv (version_key (fst ?u))"
        using both by simp_all
      have "version_key (fst ?l) \<le> version_key (fst ?u)"
        using within_le[OF w(1)] within_le[OF w(2)] by (rule order_trans)
      with False have eq: "version_key (fst ?l) = version_key (fst ?u)" by simp
      from a have "version_key (lower c1) \<noteq> version_key (upper c1)"
        "version_key (lower c1) \<noteq> version_key (upper c2)"
        "version_key (lower c2) \<noteq> version_key (upper c1)"
        "version_key (lower c2) \<noteq> version_key (upper c2)"
        by (simp_all add: cmp compare3_def split: if_splits)
      with eq show False
        by (simp add: key_meet_lower key_meet_upper lower_end_def upper_end_def max_def min_def
            split: if_splits)
    qed
    with none show ?thesis by simp
  qed
qed

theorem intersect_satisfies_witness:
  "numeric_version v_1_5_0 \<and> numeric_constraint c_1_to_2 \<and> numeric_constraint c_12_to_3 \<and>
   versionSatifiesConstraint v_1_5_0 c_1_to_2 \<and> versionSatifiesConstraint v_1_5_0 c_12_to_3 \<and>
   satisfies_opt v_1_5_0 (constraintIntersect c_1_to_2 c_12_to_3)"
proof -
  have h: "numeric_version v_1_5_0" "numeric_constraint c_1_to_2" "numeric_constraint c_12_to_3"
    by code_simp+
  have r: "versionSatifiesConstraint v_1_5_0 c_1_to_2" "versionSatifiesConstraint v_1_5_0 c_12_to_3"
    "versionCompare (lower c_1_to_2) (upper c_1_to_2) \<noteq> 0"
    "versionCompare (lower c_1_to_2) (upper c_12_to_3) \<noteq> 0"
    "versionCompare (lower c_12_to_3) (upper c_1_to_2) \<noteq> 0"
    "versionCompare (lower c_12_to_3) (upper c_12_to_3) \<noteq> 0"
    by code_simp+
  from intersect_satisfies[OF h] r have "satisfies_opt v_1_5_0 (constraintIntersect c_1_to_2 c_12_to_3)"
    by simp
  with h r show ?thesis by simp
qed

text \<open>
  The claim as stated fails: \<^verbatim>\<open>2.0.0\<close> satisfies both \<^verbatim>\<open>2.0.0 <= v < 3.0.0\<close> and
  \<^verbatim>\<open>1.0.0 <= v <= 2.0.0\<close>, and their intersection is absent.
\<close>

theorem intersect_satisfies_counterexample:
  "versionSatifiesConstraint v_2_0_0 c_2_to_3 \<and> versionSatifiesConstraint v_2_0_0 c_1_upto_2 \<and>
   constraintIntersect c_2_to_3 c_1_upto_2 = None \<and>
   \<not> satisfies_opt v_2_0_0 (constraintIntersect c_2_to_3 c_1_upto_2)"
  by code_simp

text \<open>
  Claim C4, as amended. For constraints whose string forms are dotted digit groups, with
  bounds compared as \<^verbatim>\<open>versionCompare\<close> compares them, by the three numbers \<^verbatim>\<open>Number\<close>
  reads from the groups (64-bit floats: a group above \<open>2^53\<close> is rounded to the nearest
  float, and is \<^verbatim>\<open>Infinity\<close> when too large): a present result of \<^verbatim>\<open>constraintIntersect\<close>
  has as lower bound the greater of the two lower bounds and as upper bound the smaller
  of the two upper bounds, the bound of the first constraint where the two compare equal,
  each with the operator of the bound chosen and, where the two bounds compare equal,
  the strict operator if either side has it; the result is absent exactly when the
  greater lower bound is not below the smaller upper bound. Intersecting
  \<^verbatim>\<open>1.0.0 <= v < 2.0.0\<close> with \<^verbatim>\<open>1.2.0 <= v <= 3.0.0\<close> gives \<^verbatim>\<open>1.2.0 <= v < 2.0.0\<close>, and
  intersecting \<^verbatim>\<open>9007199254740992.0.0 <= v <= 9007199254740993.0.0\<close> with itself gives
  nothing, both bounds being read as \<open>2^53\<close>.
\<close>

theorem constraintIntersect_bounds:
  assumes "numeric_constraint c1" and "numeric_constraint c2"
  shows "(case constraintIntersect c1 c2 of
            None \<Rightarrow>
              min (version_key (upper c1)) (version_key (upper c2))
                \<le> max (version_key (lower c1)) (version_key (lower c2))
          | Some r \<Rightarrow>
              version_key (lower r) = max (version_key (lower c1)) (version_key (lower c2)) \<and>
              lower r = (if version_key (lower c1) < version_key (lower c2) then lower c2 else lower c1) \<and>
              lowerOperator r =
                (if version_key (lower c1) = version_key (lower c2)
                 then (if lowerOperator c1 = Lt \<or> lowerOperator c2 = Lt then Lt else Le)
                 else if version_key (lower c1) < version_key (lower c2) then lowerOperator c2
                 else lowerOperator c1) \<and>
              version_key (upper r) = min (version_key (upper c1)) (version_key (upper c2)) \<and>
              upper r = (if version_key (upper c2) < version_key (upper c1) then upper c2 else upper c1) \<and>
              upperOperator r =
                (if version_key (upper c1) = version_key (upper c2)
                 then (if upperOperator c1 = Lt \<or> upperOperator c2 = Lt then Lt else Le)
                 else if version_key (upper c1) < version_key (upper c2) then upperOperator c1
                 else upperOperator c2) \<and>
              version_key (lower r) < version_key (upper r)) \<and>
         constraintIntersect (mkConstraint ''1.0.0'' Le Lt ''2.0.0'') (mkConstraint ''1.2.0'' Le Le ''3.0.0'')
           = Some (mkConstraint ''1.2.0'' Le Lt ''2.0.0'') \<and>
         constraintIntersect c_big c_big = None"
proof -
  have ex: "constraintIntersect (mkConstraint ''1.0.0'' Le Lt ''2.0.0'') (mkConstraint ''1.2.0'' Le Le ''3.0.0'')
           = Some (mkConstraint ''1.2.0'' Le Lt ''2.0.0'')"
    by code_simp
  have big: "constraintIntersect c_big c_big = None"
    by (rule c_big_empty)
  show ?thesis
    unfolding constraintIntersect_ends[OF assms]
    by (rule conjI[OF _ conjI[OF ex big]])
       (auto simp: of_ends_def meet_lower_def meet_upper_def lower_end_def upper_end_def merge_def
          max_def min_def)
qed

theorem constraintIntersect_bounds_witness:
  "numeric_constraint c_1_to_2 \<and> numeric_constraint c_12_to_3 \<and>
   (\<exists>r. constraintIntersect c_1_to_2 c_12_to_3 = Some r \<and>
        version_key (lower r) = (1, 2, 0) \<and> version_key (upper r) = (2, 0, 0) \<and>
        lowerOperator r = Le \<and> upperOperator r = Lt)"
proof -
  have h: "numeric_constraint c_1_to_2" "numeric_constraint c_12_to_3"
    by code_simp+
  have k: "version_key (lower c_1_to_2) = (1, 0, 0)" "version_key (lower c_12_to_3) = (1, 2, 0)"
    "version_key (upper c_1_to_2) = (2, 0, 0)" "version_key (upper c_12_to_3) = (3, 0, 0)"
    "lowerOperator c_1_to_2 = Le" "lowerOperator c_12_to_3 = Le"
    "upperOperator c_1_to_2 = Lt" "upperOperator c_12_to_3 = Le"
    by code_simp+
  have s: "constraintIntersect c_1_to_2 c_12_to_3 \<noteq> None"
    by code_simp
  from constraintIntersect_bounds[OF h] s h show ?thesis
    by (auto simp: k split: option.splits)
qed

text \<open>
  The claim as stated, on the integers written in the bounds, fails above \<open>2^53\<close>: the
  lower bound \<^verbatim>\<open>9007199254740992.0.0\<close> is below the upper bound
  \<^verbatim>\<open>9007199254740993.0.0\<close>, and the intersection of that constraint with itself is
  absent, because \<^verbatim>\<open>Number\<close> reads both as \<open>2^53\<close>.
\<close>

theorem constraintIntersect_bounds_counterexample:
  "numeric_constraint c_big \<and>
   written_key (lower c_big) = (9007199254740992, 0, 0) \<and>
   written_key (upper c_big) = (9007199254740993, 0, 0) \<and>
   written_key (lower c_big) < written_key (upper c_big) \<and>
   version_key (lower c_big) = version_key (upper c_big) \<and>
   versionCompare (lower c_big) (upper c_big) = 0 \<and>
   constraintIntersect c_big c_big = None"
  by (simp add: c_big_simps written_big key_big compare_big c_big_empty)

text \<open>
  Claim C7, as amended. For constraints whose string forms are dotted digit groups,
  \<^verbatim>\<open>constraintIntersect\<close> is associative with equality of every field (an absent
  intermediate result giving an absent result), and commutative up to the interval: the
  two results are both absent, or have the same operators and bounds that compare
  equal. They are equal in every field when bounds of the two constraints that compare
  equal are the same object; otherwise the result keeps the bound of its first argument.
\<close>

theorem constraintIntersect_assoc_comm:
  assumes "numeric_constraint c1" and "numeric_constraint c2" and "numeric_constraint c3"
  shows "Option.bind (constraintIntersect c1 c2) (\<lambda>c. constraintIntersect c c3) =
           Option.bind (constraintIntersect c2 c3) (constraintIntersect c1) \<and>
         rel_option same_interval (constraintIntersect c1 c2) (constraintIntersect c2 c1) \<and>
         ((versionCompare (lower c1) (lower c2) = 0 \<longrightarrow> lower c1 = lower c2) \<and>
          (versionCompare (upper c1) (upper c2) = 0 \<longrightarrow> upper c1 = upper c2) \<longrightarrow>
          constraintIntersect c1 c2 = constraintIntersect c2 c1)"
  using constraintIntersect_assoc[OF assms] constraintIntersect_comm_interval[OF assms(1,2)]
    constraintIntersect_comm_exact[OF assms(1,2)]
  by blast

theorem constraintIntersect_assoc_comm_witness:
  "numeric_constraint c_1_to_2 \<and> numeric_constraint c_12_to_3 \<and> numeric_constraint c_1_upto_2 \<and>
   Option.bind (constraintIntersect c_1_to_2 c_12_to_3) (\<lambda>c. constraintIntersect c c_1_upto_2) =
     Some (mkConstraint ''1.2.0'' Le Lt ''2.0.0'') \<and>
   Option.bind (constraintIntersect c_12_to_3 c_1_upto_2) (constraintIntersect c_1_to_2) =
     Some (mkConstraint ''1.2.0'' Le Lt ''2.0.0'') \<and>
   constraintIntersect c_1_to_2 c_12_to_3 = constraintIntersect c_12_to_3 c_1_to_2"
proof -
  have h: "numeric_constraint c_1_to_2" "numeric_constraint c_12_to_3" "numeric_constraint c_1_upto_2"
    by code_simp+
  have l: "Option.bind (constraintIntersect c_1_to_2 c_12_to_3) (\<lambda>c. constraintIntersect c c_1_upto_2) =
     Some (mkConstraint ''1.2.0'' Le Lt ''2.0.0'')"
    by code_simp
  have d: "versionCompare (lower c_1_to_2) (lower c_12_to_3) \<noteq> 0"
    "versionCompare (upper c_1_to_2) (upper c_12_to_3) \<noteq> 0"
    by code_simp+
  from constraintIntersect_assoc_comm[OF h] l d h show ?thesis
    by simp
qed

text \<open>
  Commutativity in every field fails: \<^verbatim>\<open>01.0.0\<close> and \<^verbatim>\<open>1.0.0\<close> compare equal, and
  the result carries the lower bound of whichever constraint comes first.
\<close>

theorem constraintIntersect_comm_counterexample:
  "constraintIntersect c_01_to_2 c_1_to_2 \<noteq> constraintIntersect c_1_to_2 c_01_to_2 \<and>
   map_option (\<lambda>r. string (lower r)) (constraintIntersect c_01_to_2 c_1_to_2) = Some ''01.0.0'' \<and>
   map_option (\<lambda>r. string (lower r)) (constraintIntersect c_1_to_2 c_01_to_2) = Some ''1.0.0''"
  by code_simp

text \<open>
  Claim C6, as amended. \<^verbatim>\<open>versionCompare\<close> returns \<open>-1\<close>, \<open>0\<close> or \<open>1\<close>; it reads
  only the string form of its arguments, never the fields \<^verbatim>\<open>major\<close>, \<^verbatim>\<open>minor\<close> and
  \<^verbatim>\<open>patch\<close>; on string forms made of dotted digit groups it is the lexicographic
  comparison of the three numbers \<^verbatim>\<open>Number\<close> reads there, which are 64-bit floats: a
  group above \<open>2^53\<close> is rounded to the nearest float, and is \<^verbatim>\<open>Infinity\<close> when too
  large; and for versions built by \<^verbatim>\<open>parseVersion\<close> from such strings that is the
  lexicographic comparison of \<^verbatim>\<open>(major, minor, patch)\<close>, which \<^verbatim>\<open>parseInt\<close> rounds in the
  same way. So \<^verbatim>\<open>9007199254740993.0.0\<close> and \<^verbatim>\<open>9007199254740992.0.0\<close> compare as \<open>0\<close>.
\<close>

theorem versionCompare_reads_string:
  "versionCompare a b \<in> {- 1, 0, 1} \<and>
   versionCompare (a\<lparr>major := x1, minor := x2, patch := x3\<rparr>) (b\<lparr>major := y1, minor := y2, patch := y3\<rparr>)
     = versionCompare a b \<and>
   (numeric_version a \<and> numeric_version b \<longrightarrow>
      versionCompare a b = compare3 (version_key a) (version_key b)) \<and>
   (numeric_version (parseVersion s) \<and> numeric_version (parseVersion t) \<longrightarrow>
      (\<exists>x y. numeric_triple (parseVersion s) = Some x \<and> numeric_triple (parseVersion t) = Some y \<and>
             versionCompare (parseVersion s) (parseVersion t) = compare3 x y)) \<and>
   versionCompare (parseVersion ''9007199254740993.0.0'') (parseVersion ''9007199254740992.0.0'') = 0 \<and>
   major (parseVersion ''9007199254740993.0.0'') = Num 9007199254740992"
proof -
  have big: "versionCompare (parseVersion ''9007199254740993.0.0'') (parseVersion ''9007199254740992.0.0'') = 0"
    "major (parseVersion ''9007199254740993.0.0'') = Num 9007199254740992"
    by (rule compare_big major_big)+
  show ?thesis
    using versionCompare_range[of a b] versionCompare_fields big
    by (simp add: versionCompare_key parseVersion_triple)
qed

theorem versionCompare_reads_string_witness:
  "numeric_version (parseVersion ''1.20.3'') \<and> numeric_version (parseVersion ''1.3.3'') \<and>
   numeric_triple (parseVersion ''1.20.3'') = Some (1, 20, 3) \<and>
   numeric_triple (parseVersion ''1.3.3'') = Some (1, 3, 3) \<and>
   versionCompare (parseVersion ''1.20.3'') (parseVersion ''1.3.3'') = compare3 (1, 20, 3) (1, 3, 3) \<and>
   compare3 (1, 20, 3) (1, 3, 3) = 1"
proof -
  have h: "numeric_version (parseVersion ''1.20.3'')" "numeric_version (parseVersion ''1.3.3'')"
    by code_simp+
  have t: "numeric_triple (parseVersion ''1.20.3'') = Some (1, 20, 3)"
    "numeric_triple (parseVersion ''1.3.3'') = Some (1, 3, 3)"
    "compare3 (1, 20, 3) (1, 3, 3) = 1"
    by code_simp+
  from versionCompare_reads_string[of "parseVersion ''1.20.3''" "parseVersion ''1.3.3''" NaN NaN NaN NaN NaN NaN
      "''1.20.3''" "''1.3.3''"] h t
  show ?thesis by auto
qed

text \<open>
  The claim as stated fails: two versions with the same fields \<^verbatim>\<open>(1, 0, 0)\<close> and the
  string forms \<^verbatim>\<open>2.0.0\<close> and \<^verbatim>\<open>1.0.0\<close> compare as \<open>1\<close>. It also fails on versions
  built by \<^verbatim>\<open>parseVersion\<close>: for \<^verbatim>\<open>1a.0.0\<close>, \<^verbatim>\<open>parseInt\<close> gives the major number 1 and
  \<^verbatim>\<open>Number\<close> gives \<^verbatim>\<open>NaN\<close>, so it compares as \<open>0\<close> with \<^verbatim>\<open>2.0.0\<close> although
  \<open>(1, 0, 0)\<close> is below \<open>(2, 0, 0)\<close>.
\<close>

theorem versionCompare_triple_counterexample:
  "numeric_triple \<lparr>major = Num 1, minor = Num 0, patch = Num 0, string = ''2.0.0''\<rparr> = Some (1, 0, 0) \<and>
   numeric_triple \<lparr>major = Num 1, minor = Num 0, patch = Num 0, string = ''1.0.0''\<rparr> = Some (1, 0, 0) \<and>
   compare3 (1, 0, 0) (1, 0, 0) = 0 \<and>
   versionCompare \<lparr>major = Num 1, minor = Num 0, patch = Num 0, string = ''2.0.0''\<rparr>
                  \<lparr>major = Num 1, minor = Num 0, patch = Num 0, string = ''1.0.0''\<rparr> = 1 \<and>
   numeric_triple (parseVersion ''1a.0.0'') = Some (1, 0, 0) \<and>
   numeric_triple (parseVersion ''2.0.0'') = Some (2, 0, 0) \<and>
   compare3 (1, 0, 0) (2, 0, 0) = - 1 \<and>
   versionCompare (parseVersion ''1a.0.0'') (parseVersion ''2.0.0'') = 0"
  by code_simp

section \<open>The solver: candidates, picking, combining\<close>

lemma insert_by_zero: "insert_by (\<lambda>a b. 0) x xs = x # xs"
  by (cases xs) simp_all

lemma sort_js_zero: "sort_js (\<lambda>a b. 0) xs = xs"
  by (induction xs) (simp_all add: sort_js_def insert_by_zero)

lemma js_lt_object_never: "js_lt_object a b = False"
  by (simp add: js_lt_object_def js_toPrimitive_def)

lemma candidates_of_eq:
  "candidates_of packages constraint solvedVersion =
     (case solvedVersion of
        None \<Rightarrow> rev (filter (\<lambda>p. versionSatifiesConstraint (version p) constraint) packages)
      | Some sv \<Rightarrow>
          filter (\<lambda>a. string (version a) = string sv)
            (rev (filter (\<lambda>p. versionSatifiesConstraint (version p) constraint) packages)))"
  by (simp add: candidates_of_def js_lt_object_never sort_js_zero Let_def)

lemma candidates_of_set:
  "e \<in> set (candidates_of packages constraint solvedVersion) \<Longrightarrow>
   e \<in> set packages \<and> versionSatifiesConstraint (version e) constraint \<and>
   (\<forall>sv. solvedVersion = Some sv \<longrightarrow> string (version e) = string sv)"
  by (auto simp: candidates_of_eq split: option.splits)

lemma pickDep_None:
  assumes "pickDep deps = (None, rest)" and "[] \<notin> fst ` set deps"
  shows "deps = []"
proof (rule ccontr)
  assume ne: "deps \<noteq> []"
  then have "sort (map fst deps) \<noteq> []"
    by (metis length_0_conv length_map length_sort)
  then obtain k ks where s: "sort (map fst deps) = k # ks"
    by (cases "sort (map fst deps)") auto
  then have "k \<in> set (sort (map fst deps))" by simp
  then have k: "k \<in> fst ` set deps" by simp
  with assms(2) have "k \<noteq> []" by metis
  moreover from k have "map_of deps k \<noteq> None"
    by (simp add: map_of_eq_None_iff)
  ultimately show False
    using assms(1) by (auto simp: pickDep_def at_js_def s Let_def)
qed

lemma pickDep_Some:
  assumes "pickDep deps = (Some (name, constraint), rest)"
  shows "map_of deps name = Some constraint \<and> rest = AList.delete name deps \<and> name \<noteq> []"
  using assms
  by (auto simp: pickDep_def Let_def at_js_def split: if_splits option.splits)

lemma pickDep_empty: "pickDep [] = (None, [])"
  by (simp add: pickDep_def at_js_def)

lemma set_js_Set_aux:
  "set (foldl (\<lambda>acc x. if x \<in> set acc then acc else acc @ [x]) acc xs) = set acc \<union> set xs"
  by (induction xs arbitrary: acc) auto

lemma set_js_Set: "set (js_Set xs) = set xs"
  by (simp add: js_Set_def set_js_Set_aux)

lemma combineDeps_loop_Some:
  "combineDeps_loop a b keys acc = Inr (Some td) \<Longrightarrow>
   (\<forall>k. map_of td k = (if k \<in> set keys then combined a b k else map_of acc k)) \<and>
   (\<forall>k\<in>set keys. combined a b k \<noteq> None)"
proof (induction keys arbitrary: acc)
  case Nil
  then show ?case by simp
next
  case (Cons key keys)
  from Cons.prems obtain v where v: "combined a b key = Some v"
    and r: "combineDeps_loop a b keys (AList.update key v acc) = Inr (Some td)"
    by (auto simp: combined_def split: option.splits)
  from Cons.IH[OF r] v show ?case
    by (auto simp: update_conv')
qed

lemma combineDeps_loop_no_error:
  "\<forall>k\<in>set keys. map_of a k \<noteq> None \<or> map_of b k \<noteq> None \<Longrightarrow> combineDeps_loop a b keys acc \<noteq> Inl e"
  by (induction keys arbitrary: acc) (auto split: option.splits)

lemma combineDeps_no_error: "combineDeps a b \<noteq> Inl e"
  unfolding combineDeps_def
  by (rule combineDeps_loop_no_error)
     (auto simp: set_js_Set map_of_eq_None_iff)

lemma combineDeps_Some:
  assumes "combineDeps a b = Inr (Some td)"
  shows "map_of td k = combined a b k"
proof -
  from combineDeps_loop_Some[OF assms[unfolded combineDeps_def]]
  have m: "map_of td k = (if k \<in> fst ` set a \<union> fst ` set b then combined a b k else None)"
    by (simp add: set_js_Set)
  have "combined a b k = None" if "k \<notin> fst ` set a \<union> fst ` set b"
    using that by (simp add: combined_def map_of_eq_None_iff[THEN iffD2])
  with m show ?thesis by auto
qed

lemma combineDeps_keys:
  assumes "combineDeps a b = Inr (Some td)"
  shows "fst ` set td = fst ` set a \<union> fst ` set b"
proof -
  from combineDeps_loop_Some[OF assms[unfolded combineDeps_def]]
  have m: "\<And>k. map_of td k = (if k \<in> fst ` set a \<union> fst ` set b then combined a b k else None)"
    and n: "\<forall>k\<in>fst ` set a \<union> fst ` set b. combined a b k \<noteq> None"
    by (simp_all add: set_js_Set)
  have "dom (map_of td) = fst ` set a \<union> fst ` set b"
    using m n by (auto simp: dom_def split: if_splits)
  then show ?thesis
    by (simp add: dom_map_of_conv_image_fst)
qed

lemma versionCompare_string_cong:
  "string a = string a' \<Longrightarrow> string b = string b' \<Longrightarrow> versionCompare a b = versionCompare a' b'"
  by (simp add: versionCompare_def)

lemma satisfies_string_cong:
  "string w = string w' \<Longrightarrow> versionSatifiesConstraint w c = versionSatifiesConstraint w' c"
  by (simp add: versionSatifiesConstraint_def filterSemver_def versionCompare_string_cong[of w w'] 
      versionCompare_string_cong[of _ _ w w'])

lemma numeric_string_cong: "string w = string w' \<Longrightarrow> numeric_version w = numeric_version w'"
  by (simp add: numeric_version_def)

lemma intersect_satisfies_both:
  assumes "numeric_version v" and "numeric_constraint c1" and "numeric_constraint c2"
    and "constraintIntersect c1 c2 = Some r" and "versionSatifiesConstraint v r"
  shows "versionSatifiesConstraint v c1 \<and> versionSatifiesConstraint v c2"
proof -
  let ?l = "meet_lower (lower_end c1) (lower_end c2)"
  let ?u = "meet_upper (upper_end c1) (upper_end c2)"
  from assms(4) have r: "r = \<lparr>lower = fst ?l, upper = fst ?u, lowerOperator = snd ?l, upperOperator = snd ?u\<rparr>"
    by (simp add: constraintIntersect_ends assms(2,3) of_ends_def split: if_splits)
  have nr: "numeric_constraint r"
    by (rule constraintIntersect_numeric[OF assms(2,3,4)])
  from assms(5) have "within_bound (snd ?l) (version_key (fst ?l)) (version_key v) \<and>
      within_bound (snd ?u) (version_key v) (version_key (fst ?u))"
    by (simp add: satisfies_key[OF assms(1) nr]) (simp add: r)
  then show ?thesis
    unfolding within_meet_lower within_meet_upper
    by (simp add: satisfies_key assms lower_end_def upper_end_def)
qed

section \<open>The solver: what a returned solution satisfies\<close>

lemma tighter_refl: "numeric_constraint c \<Longrightarrow> tighter c c"
  by (simp add: tighter_def)

lemma tighter_trans: "tighter a b \<Longrightarrow> tighter b c \<Longrightarrow> tighter a c"
  by (simp add: tighter_def)

lemma tighter_intersect:
  assumes "numeric_constraint c1" and "numeric_constraint c2" and "constraintIntersect c1 c2 = Some r"
  shows "tighter r c1 \<and> tighter r c2"
  using intersect_satisfies_both[OF _ assms] constraintIntersect_numeric[OF assms]
  by (simp add: tighter_def)

lemma extends_refl: "extends s s"
  by (simp add: extends_def)

lemma extends_trans: "extends a b \<Longrightarrow> extends b c \<Longrightarrow> extends a c"
  unfolding extends_def by (metis (no_types, lifting))

lemma chosen_extends: "chosen s q c \<Longrightarrow> extends s s' \<Longrightarrow> chosen s' q c"
  unfolding chosen_def extends_def by (metis satisfies_string_cong)

lemma fst_set_delete: "fst ` set (AList.delete k al) \<subseteq> fst ` set al"
  by (auto simp: AList.delete_eq)

lemma combined_wellformed:
  assumes "wellformed_deps deps" and "wellformed_cache cache" and "cache name = Inr ps" and "cand \<in> set ps"
    and "combineDeps (AList.delete name deps) (dependencies cand) = Inr (Some td)"
  shows "wellformed_deps td"
proof -
  have nb: "\<And>q c. map_of (dependencies cand) q = Some c \<Longrightarrow> numeric_constraint c"
    and eb: "[] \<notin> fst ` set (dependencies cand)"
    using assms(2,3,4) unfolding wellformed_cache_def by blast+
  have na: "\<And>q c. map_of (AList.delete name deps) q = Some c \<Longrightarrow> numeric_constraint c"
    using assms(1) unfolding wellformed_deps_def by (auto simp: delete_conv' split: if_splits)
  have ea: "[] \<notin> fst ` set (AList.delete name deps)"
    using assms(1) fst_set_delete[of name deps] unfolding wellformed_deps_def by blast
  have "[] \<notin> fst ` set td"
    using ea eb by (simp add: combineDeps_keys[OF assms(5)])
  moreover have "numeric_constraint c" if "map_of td q = Some c" for q c
    using that na nb unfolding combineDeps_Some[OF assms(5)] combined_def
    by (auto split: option.splits dest: constraintIntersect_numeric[rotated 2])
  ultimately show ?thesis
    by (simp add: wellformed_deps_def)
qed

lemma td_tighter_left:
  assumes "combineDeps a b = Inr (Some td)" and "map_of a q = Some c"
    and "\<forall>q c. map_of a q = Some c \<longrightarrow> numeric_constraint c"
    and "\<forall>q c. map_of b q = Some c \<longrightarrow> numeric_constraint c"
  shows "\<exists>c''. map_of td q = Some c'' \<and> tighter c'' c"
proof -
  have "q \<in> fst ` set td"
    using assms(2) by (auto simp: combineDeps_keys[OF assms(1)] dest: map_of_SomeD intro: rev_image_eqI)
  then obtain c'' where c'': "map_of td q = Some c''"
    by (metis map_of_eq_None_iff not_Some_eq)
  then have "combined a b q = Some c''"
    by (simp add: combineDeps_Some[OF assms(1)])
  then have "tighter c'' c"
    using assms(2,3,4)
    by (auto simp: combined_def tighter_refl split: option.splits dest: tighter_intersect[rotated 2])
  with c'' show ?thesis by blast
qed

lemma td_tighter_right:
  assumes "combineDeps a b = Inr (Some td)" and "map_of b q = Some c"
    and "\<forall>q c. map_of a q = Some c \<longrightarrow> numeric_constraint c"
    and "\<forall>q c. map_of b q = Some c \<longrightarrow> numeric_constraint c"
  shows "\<exists>c''. map_of td q = Some c'' \<and> tighter c'' c"
proof -
  have "q \<in> fst ` set td"
    using assms(2) by (auto simp: combineDeps_keys[OF assms(1)] dest: map_of_SomeD intro: rev_image_eqI)
  then obtain c'' where c'': "map_of td q = Some c''"
    by (metis map_of_eq_None_iff not_Some_eq)
  then have "combined a b q = Some c''"
    by (simp add: combineDeps_Some[OF assms(1)])
  then have "tighter c'' c"
    using assms(2,3,4)
    by (auto simp: combined_def tighter_refl split: option.splits dest: tighter_intersect[rotated 2])
  with c'' show ?thesis by blast
qed

lemma backed_step:
  assumes ok: "wellformed_deps deps" "wellformed_cache cache" "numeric_solutions sols"
    and b: "backed cache deps sols"
    and dep: "map_of deps name = Some constraint"
    and c: "cache name = Inr ps" "cand \<in> set ps"
    and sat: "versionSatifiesConstraint (version cand) constraint"
    and same: "\<And>sv. map_of sols name = Some sv \<Longrightarrow> string (version cand) = string sv"
    and td: "combineDeps (AList.delete name deps) (dependencies cand) = Inr (Some td)"
  shows "backed cache td (AList.update name (version cand) sols)"
proof -
  let ?sols' = "AList.update name (version cand) sols"
  let ?rest = "AList.delete name deps"
  have ncand: "numeric_version (version cand)"
    and nb: "\<forall>q c. map_of (dependencies cand) q = Some c \<longrightarrow> numeric_constraint c"
    using ok(2) c unfolding wellformed_cache_def by blast+
  have na: "\<forall>q c. map_of ?rest q = Some c \<longrightarrow> numeric_constraint c"
    using ok(1) unfolding wellformed_deps_def by (auto simp: delete_conv' split: if_splits)
  have ext: "extends sols ?sols'"
    unfolding extends_def using same by (auto simp: update_conv')
  have cov_cand: "covers ?sols' td cand"
    unfolding covers_def using td_tighter_right[OF td _ na nb] by blast
  have cov_old: "covers ?sols' td e" if e: "covers sols deps e" for e
    unfolding covers_def
  proof (intro allI impI)
    fix q cq
    assume "map_of (dependencies e) q = Some cq"
    with e consider "chosen sols q cq" | c' where "map_of deps q = Some c'" "tighter c' cq"
      unfolding covers_def by blast
    then show "chosen ?sols' q cq \<or> (\<exists>c'. map_of td q = Some c' \<and> tighter c' cq)"
    proof cases
      case 1
      then show ?thesis using chosen_extends[OF _ ext] by blast
    next
      case 2
      show ?thesis
      proof (cases "q = name")
        case True
        with 2 dep have "tighter constraint cq" by simp
        with sat ncand have "versionSatifiesConstraint (version cand) cq"
          by (simp add: tighter_def)
        then have "chosen ?sols' q cq"
          using True by (simp add: chosen_def update_conv')
        then show ?thesis ..
      next
        case False
        with 2 have "map_of ?rest q = Some c'"
          by (simp add: delete_conv')
        from td_tighter_left[OF td this na nb] 2(2) show ?thesis
          using tighter_trans by blast
      qed
    qed
  qed
  show ?thesis
    unfolding backed_def
  proof (intro allI impI)
    fix p v
    assume pv: "map_of ?sols' p = Some v"
    show "\<exists>ps e. cache p = Inr ps \<and> e \<in> set ps \<and> version e = v \<and> covers ?sols' td e"
    proof (cases "p = name")
      case True
      with pv have "v = version cand" by (simp add: update_conv')
      with True c cov_cand show ?thesis by blast
    next
      case False
      with pv have "map_of sols p = Some v" by (simp add: update_conv')
      with b obtain ps' e where "cache p = Inr ps'" "e \<in> set ps'" "version e = v" "covers sols deps e"
        unfolding backed_def by blast
      with cov_old show ?thesis by blast
    qed
  qed
qed

lemma covers_weaken: "covers sols [] e \<Longrightarrow> covers sols deps e"
  by (simp add: covers_def)

lemma backed_weaken: "backed cache [] sols \<Longrightarrow> backed cache deps sols"
  unfolding backed_def using covers_weaken by blast

lemma solver_post_step:
  assumes ok: "wellformed_deps deps" "wellformed_cache cache" "numeric_solutions sols"
    and dep: "map_of deps name = Some constraint"
    and c: "cache name = Inr ps" "cand \<in> set ps"
    and sat: "versionSatifiesConstraint (version cand) constraint"
    and same: "\<And>sv. map_of sols name = Some sv \<Longrightarrow> string (version cand) = string sv"
    and td: "combineDeps (AList.delete name deps) (dependencies cand) = Inr (Some td)"
    and p1: "solver_post cache td (AList.update name (version cand) sols) r1"
    and p2: "solver_post cache (pending r1) (solutions r1) r"
  shows "solver_post cache deps sols r"
proof -
  let ?sols' = "AList.update name (version cand) sols"
  let ?rest = "AList.delete name deps"
  have nb: "\<forall>q c. map_of (dependencies cand) q = Some c \<longrightarrow> numeric_constraint c"
    using ok(2) c unfolding wellformed_cache_def by blast
  have na: "\<forall>q c. map_of ?rest q = Some c \<longrightarrow> numeric_constraint c"
    using ok(1) unfolding wellformed_deps_def by (auto simp: delete_conv' split: if_splits)
  have ext0: "extends sols ?sols'"
    unfolding extends_def using same by (auto simp: update_conv')
  from p1 p2 have e1: "extends ?sols' (solutions r1)" and e2: "extends (solutions r1) (solutions r)"
    and s1: "satisfied (solutions r1) td" and n1: "numeric_solutions (solutions r1)"
    by (simp_all add: solver_post_def)
  have ext: "extends sols (solutions r)"
    using extends_trans[OF ext0 extends_trans[OF e1 e2]] .
  have "chosen (solutions r) q cq" if qc: "map_of deps q = Some cq" for q cq
  proof (cases "q = name")
    case True
    with qc dep sat have "chosen ?sols' q cq"
      by (simp add: chosen_def update_conv')
    then show ?thesis
      using chosen_extends[OF _ extends_trans[OF e1 e2]] by blast
  next
    case False
    with qc have "map_of ?rest q = Some cq"
      by (simp add: delete_conv')
    from td_tighter_left[OF td this na nb] obtain c'' where
      c'': "map_of td q = Some c''" "tighter c'' cq" by blast
    with s1 obtain w where w: "map_of (solutions r1) q = Some w" "versionSatifiesConstraint w c''"
      unfolding satisfied_def chosen_def by blast
    with n1 have "numeric_version w" unfolding numeric_solutions_def by blast
    with w c''(2) have "chosen (solutions r1) q cq"
      unfolding chosen_def tighter_def by blast
    then show ?thesis
      using chosen_extends[OF _ e2] by blast
  qed
  then have "satisfied (solutions r) deps"
    by (simp add: satisfied_def)
  with p2 ext show ?thesis
    by (simp add: solver_post_def)
qed

lemma tryCandidates_sound:
  assumes IH: "\<And>deps sols r. wellformed_deps deps \<Longrightarrow> numeric_solutions sols \<Longrightarrow> backed cache deps sols \<Longrightarrow>
      solveDependenciesWorker n cache deps sols = Returns (Some r) \<Longrightarrow> solver_post cache deps sols r"
    and ok: "wellformed_deps deps" "wellformed_cache cache" "numeric_solutions sols"
    and b: "backed cache deps sols"
    and dep: "map_of deps name = Some constraint"
    and c: "cache name = Inr ps"
  shows "\<forall>cand\<in>set cands. cand \<in> set ps \<and> versionSatifiesConstraint (version cand) constraint \<and>
           (\<forall>sv. map_of sols name = Some sv \<longrightarrow> string (version cand) = string sv) \<Longrightarrow>
         tryCandidates n cache (AList.delete name deps) sols name cands = Returns (Some r) \<Longrightarrow>
         solver_post cache deps sols r"
proof (induction cands)
  case Nil
  then show ?case by simp
next
  case (Cons cand cands)
  from Cons.prems(1) have cand: "cand \<in> set ps" "versionSatifiesConstraint (version cand) constraint"
    "\<And>sv. map_of sols name = Some sv \<Longrightarrow> string (version cand) = string sv"
    and rest: "\<forall>cand\<in>set cands. cand \<in> set ps \<and> versionSatifiesConstraint (version cand) constraint \<and>
           (\<forall>sv. map_of sols name = Some sv \<longrightarrow> string (version cand) = string sv)"
    by simp_all
  let ?sols' = "AList.update name (version cand) sols"
  show ?case
  proof (cases "combineDeps (AList.delete name deps) (dependencies cand)")
    case (Inl e)
    with Cons.prems(2) show ?thesis by simp
  next
    case (Inr otd)
    show ?thesis
    proof (cases otd)
      case None
      with Inr Cons.prems(2) Cons.IH[OF rest] show ?thesis by simp
    next
      case (Some td)
      with Inr have td: "combineDeps (AList.delete name deps) (dependencies cand) = Inr (Some td)"
        by simp
      have tdok: "wellformed_deps td"
        by (rule combined_wellformed[OF ok(1,2) c cand(1) td])
      have ncand: "numeric_version (version cand)"
        using ok(2) c cand(1) unfolding wellformed_cache_def by blast
      have sok: "numeric_solutions ?sols'"
        using ok(3) ncand unfolding numeric_solutions_def by (auto simp: update_conv' split: if_splits)
      have bk: "backed cache td ?sols'"
        by (rule backed_step[OF ok b dep c cand td])
      show ?thesis
      proof (cases "solveDependenciesWorker n cache td ?sols'")
        case Diverges
        with td Cons.prems(2) show ?thesis by simp
      next
        case (Throws e)
        with td Cons.prems(2) show ?thesis by simp
      next
        case (Returns res)
        show ?thesis
        proof (cases res)
          case None
          with Returns td Cons.prems(2) Cons.IH[OF rest] show ?thesis by simp
        next
          case (Some r1)
          with Returns have w1: "solveDependenciesWorker n cache td ?sols' = Returns (Some r1)"
            by simp
          have p1: "solver_post cache td ?sols' r1"
            by (rule IH[OF tdok sok bk w1])
          from w1 td Cons.prems(2)
          have w2: "solveDependenciesWorker n cache (pending r1) (solutions r1) = Returns (Some r)"
            by simp
          from p1 have "wellformed_deps (pending r1)" "numeric_solutions (solutions r1)"
            "backed cache (pending r1) (solutions r1)"
            by (simp_all add: solver_post_def wellformed_deps_def)
          then have p2: "solver_post cache (pending r1) (solutions r1) r"
            using w2 by (rule IH)
          show ?thesis
            by (rule solver_post_step[OF ok dep c cand td p1 p2])
        qed
      qed
    qed
  qed
qed

lemma worker_sound:
  assumes "wellformed_cache cache"
  shows "wellformed_deps deps \<Longrightarrow> numeric_solutions sols \<Longrightarrow> backed cache deps sols \<Longrightarrow>
         solveDependenciesWorker n cache deps sols = Returns (Some r) \<Longrightarrow> solver_post cache deps sols r"
proof (induction n arbitrary: deps sols r)
  case 0
  then show ?case by simp
next
  case (Suc n)
  obtain od rest where pd: "pickDep deps = (od, rest)"
    by (cases "pickDep deps")
  show ?case
  proof (cases od)
    case None
    with pd Suc.prems(1) have "deps = []"
      using pickDep_None by (simp add: wellformed_deps_def)
    moreover from pd None Suc.prems(4) have "r = \<lparr>pending = deps, solutions = sols\<rparr>"
      by simp
    ultimately show ?thesis
      using Suc.prems(2,3) by (simp add: solver_post_def extends_refl satisfied_def)
  next
    case (Some d)
    obtain name constraint where d: "d = (name, constraint)"
      by (cases d)
    from pickDep_Some[OF pd[unfolded Some d]]
    have dep: "map_of deps name = Some constraint" and rest: "rest = AList.delete name deps"
      by simp_all
    show ?thesis
    proof (cases "cache name")
      case (Inl e)
      with pd Some d Suc.prems(4) show ?thesis by simp
    next
      case (Inr ps)
      with pd Some d Suc.prems(4) rest
      have t: "tryCandidates n cache (AList.delete name deps) sols name
                 (candidates_of ps constraint (map_of sols name)) = Returns (Some r)"
        by simp
      have cs: "\<forall>cand\<in>set (candidates_of ps constraint (map_of sols name)).
          cand \<in> set ps \<and> versionSatifiesConstraint (version cand) constraint \<and>
          (\<forall>sv. map_of sols name = Some sv \<longrightarrow> string (version cand) = string sv)"
        using candidates_of_set by blast
      show ?thesis
        by (rule tryCandidates_sound[OF Suc.IH Suc.prems(1) assms Suc.prems(2,3) dep Inr cs t])
    qed
  qed
qed

lemma cache_of_wellformed:
  assumes "wellformed_table table"
  shows "wellformed_cache (cache_of table)"
  unfolding wellformed_cache_def
proof (intro allI impI)
  fix p ps e
  assume c: "cache_of table p = Inr ps" and e: "e \<in> set ps"
  from c have "map_of table p = Some ps"
    by (simp add: cache_of_def split: option.splits)
  then have "(p, ps) \<in> set table"
    by (rule map_of_SomeD)
  with assms have "list_all wellformed_entry ps"
    unfolding wellformed_table_def list_all_iff by blast
  with e have "wellformed_entry e"
    unfolding list_all_iff by blast
  then have h: "numeric_version (version e)" "[] \<notin> set (map fst (dependencies e))"
    "list_all (\<lambda>(q, c). numeric_constraint c) (dependencies e)"
    by (simp_all add: wellformed_entry_def)
  have "numeric_constraint c" if "map_of (dependencies e) q = Some c" for q c
    using map_of_SomeD[OF that] h(3) unfolding list_all_iff by blast
  with h(1,2) show "numeric_version (version e) \<and> [] \<notin> fst ` set (dependencies e) \<and>
        (\<forall>q c. map_of (dependencies e) q = Some c \<longrightarrow> numeric_constraint c)"
    by simp
qed

lemma cache_of_distinct:
  assumes "table_distinct table"
  shows "\<forall>p ps. cache_of table p = Inr ps \<longrightarrow> distinct (map version ps)"
proof (intro allI impI)
  fix p ps
  assume "cache_of table p = Inr ps"
  then have "map_of table p = Some ps"
    by (simp add: cache_of_def split: option.splits)
  then have "(p, ps) \<in> set table"
    by (rule map_of_SomeD)
  with assms show "distinct (map version ps)"
    unfolding table_distinct_def list_all_iff by blast
qed

lemma wellformed_deps_list:
  assumes "[] \<notin> set (map fst deps) \<and> list_all (\<lambda>(q, c). numeric_constraint c) deps"
  shows "wellformed_deps deps"
proof -
  have "numeric_constraint c" if "map_of deps q = Some c" for q c
    using map_of_SomeD[OF that] assms unfolding list_all_iff by blast
  with assms show ?thesis
    by (simp add: wellformed_deps_def)
qed

text \<open>
  Claim C2, as amended. For a package cache and a root dependency map that are well
  formed (string forms of versions and bounds are dotted digit groups, no package name
  is the empty string): if \<^verbatim>\<open>solveDependencies\<close> returns a solution, then every root
  constraint is satisfied by the version chosen for its package, and every selected
  pair \<open>(p, v)\<close> is the version of a cache entry of \<open>p\<close> all of whose declared
  dependencies \<open>(q, c)\<close> the solution maps to a version satisfying \<open>c\<close>; where the
  cache lists every version of a package once, that holds for the entry of \<open>p\<close> at
  \<open>v\<close>.
\<close>

theorem solveDependencies_sound:
  assumes "solveDependencies n packageCache deps = Returns (Some sol)"
    and "wellformed_cache packageCache" and "wellformed_deps deps"
  shows "(\<forall>q c. map_of deps q = Some c \<longrightarrow>
            (\<exists>w. map_of sol q = Some w \<and> versionSatifiesConstraint w c)) \<and>
         (\<forall>p v. map_of sol p = Some v \<longrightarrow>
            (\<exists>ps e. packageCache p = Inr ps \<and> e \<in> set ps \<and> version e = v \<and>
               (\<forall>q c. map_of (dependencies e) q = Some c \<longrightarrow>
                  (\<exists>w. map_of sol q = Some w \<and> versionSatifiesConstraint w c)))) \<and>
         ((\<forall>p ps. packageCache p = Inr ps \<longrightarrow> distinct (map version ps)) \<longrightarrow>
          (\<forall>p v ps e q c. map_of sol p = Some v \<longrightarrow> packageCache p = Inr ps \<longrightarrow> e \<in> set ps \<longrightarrow>
             version e = v \<longrightarrow> map_of (dependencies e) q = Some c \<longrightarrow>
             (\<exists>w. map_of sol q = Some w \<and> versionSatifiesConstraint w c)))"
proof -
  from assms(1) obtain r where
    w: "solveDependenciesWorker n packageCache deps [] = Returns (Some r)" and sol: "sol = solutions r"
    by (auto simp: solveDependencies_def split: run.splits option.splits)
  have "numeric_solutions []" "backed packageCache deps []"
    by (simp_all add: numeric_solutions_def backed_def)
  from worker_sound[OF assms(2,3) this w]
  have s: "satisfied sol deps" and b: "backed packageCache [] sol"
    by (simp_all add: solver_post_def sol)
  have roots: "\<forall>q c. map_of deps q = Some c \<longrightarrow>
            (\<exists>w. map_of sol q = Some w \<and> versionSatifiesConstraint w c)"
    using s by (simp add: satisfied_def chosen_def)
  have ex: "\<forall>p v. map_of sol p = Some v \<longrightarrow>
            (\<exists>ps e. packageCache p = Inr ps \<and> e \<in> set ps \<and> version e = v \<and>
               (\<forall>q c. map_of (dependencies e) q = Some c \<longrightarrow>
                  (\<exists>w. map_of sol q = Some w \<and> versionSatifiesConstraint w c)))"
    using b unfolding backed_def covers_def chosen_def by simp
  have all: "\<exists>w. map_of sol q = Some w \<and> versionSatifiesConstraint w c"
    if d: "\<forall>p ps. packageCache p = Inr ps \<longrightarrow> distinct (map version ps)"
      and h: "map_of sol p = Some v" "packageCache p = Inr ps" "e \<in> set ps" "version e = v"
        "map_of (dependencies e) q = Some c"
    for p v ps e q c
  proof -
    from ex[rule_format, OF h(1)] h(2) obtain e' where e': "e' \<in> set ps" "version e' = v"
      "\<forall>q c. map_of (dependencies e') q = Some c \<longrightarrow>
         (\<exists>w. map_of sol q = Some w \<and> versionSatifiesConstraint w c)"
      by fastforce
    from d h(2) have "inj_on version (set ps)"
      by (simp add: distinct_map)
    with e'(1,2) h(3,4) have "e' = e"
      by (simp add: inj_on_def)
    with e'(3) h(5) show ?thesis by blast
  qed
  show ?thesis
  proof (intro conjI)
    show "\<forall>q c. map_of deps q = Some c \<longrightarrow>
            (\<exists>w. map_of sol q = Some w \<and> versionSatifiesConstraint w c)"
      by (rule roots)
    show "\<forall>p v. map_of sol p = Some v \<longrightarrow>
            (\<exists>ps e. packageCache p = Inr ps \<and> e \<in> set ps \<and> version e = v \<and>
               (\<forall>q c. map_of (dependencies e) q = Some c \<longrightarrow>
                  (\<exists>w. map_of sol q = Some w \<and> versionSatifiesConstraint w c)))"
      by (rule ex)
    show "(\<forall>p ps. packageCache p = Inr ps \<longrightarrow> distinct (map version ps)) \<longrightarrow>
          (\<forall>p v ps e q c. map_of sol p = Some v \<longrightarrow> packageCache p = Inr ps \<longrightarrow> e \<in> set ps \<longrightarrow>
             version e = v \<longrightarrow> map_of (dependencies e) q = Some c \<longrightarrow>
             (\<exists>w. map_of sol q = Some w \<and> versionSatifiesConstraint w c))"
      using all by (intro impI allI)
  qed
qed

theorem solveDependencies_sound_witness:
  "solveDependencies 3 cache5 [(''P'', c_1_to_2)] =
     Returns (Some [(''P'', parseVersion ''1.5.0''), (''Q'', parseVersion ''1.9.0'')]) \<and>
   (\<exists>w. map_of [(''P'', parseVersion ''1.5.0''), (''Q'', parseVersion ''1.9.0'')] ''P'' = Some w \<and>
        versionSatifiesConstraint w c_1_to_2) \<and>
   (\<exists>w. map_of [(''P'', parseVersion ''1.5.0''), (''Q'', parseVersion ''1.9.0'')] ''Q'' = Some w \<and>
        versionSatifiesConstraint w (mkConstraint ''1.0.0'' Le Lt ''2.0.0''))"
proof -
  let ?sol = "[(''P'', parseVersion ''1.5.0''), (''Q'', parseVersion ''1.9.0'')]"
  let ?e = "package ''1.5.0'' [(''Q'', mkConstraint ''1.0.0'' Le Lt ''2.0.0'')]"
  let ?ps = "[package ''1.4.0'' [(''Q'', mkConstraint ''2.0.0'' Le Lt ''3.0.0'')], ?e]"
  have run: "solveDependencies 3 cache5 [(''P'', c_1_to_2)] = Returns (Some ?sol)"
    by code_simp
  have ok: "wellformed_cache cache5"
    unfolding cache5_def by (rule cache_of_wellformed) code_simp
  have dok: "wellformed_deps [(''P'', c_1_to_2)]"
    by (rule wellformed_deps_list) code_simp
  have dist: "\<forall>p ps. cache5 p = Inr ps \<longrightarrow> distinct (map version ps)"
    unfolding cache5_def by (rule cache_of_distinct) code_simp
  have c: "cache5 ''P'' = Inr ?ps"
    by (simp add: cache5_def cache_of_def)
  note s = solveDependencies_sound[OF run ok dok]
  have m: "map_of [(''P'', c_1_to_2)] ''P'' = Some c_1_to_2"
    "map_of ?sol ''P'' = Some (parseVersion ''1.5.0'')"
    "?e \<in> set ?ps" "version ?e = parseVersion ''1.5.0''"
    "map_of (dependencies ?e) ''Q'' = Some (mkConstraint ''1.0.0'' Le Lt ''2.0.0'')"
    by (simp_all add: package_def)
  from s[THEN conjunct1, rule_format, OF m(1)]
  have p: "\<exists>w. map_of ?sol ''P'' = Some w \<and> versionSatifiesConstraint w c_1_to_2" .
  from s[THEN conjunct2, THEN conjunct2, THEN mp, OF dist, rule_format, OF m(2) c m(3,4,5)]
  have q: "\<exists>w. map_of ?sol ''Q'' = Some w \<and>
      versionSatifiesConstraint w (mkConstraint ''1.0.0'' Le Lt ''2.0.0'')" .
  from run p q show ?thesis by (intro conjI)
qed

text \<open>
  A root map with the empty string as a key is returned unsolved: \<^verbatim>\<open>pickDep\<close> takes the
  empty first key for no key.
\<close>

lemma solveDependencies_empty_name:
  "solveDependencies (Suc n) packageCache (([], c) # deps) = Returns (Some [])"
proof -
  have "sort (map fst (([], c) # deps)) = [] # sort (map fst deps)"
    by (simp add: insort_is_Cons)
  then show ?thesis
    by (simp add: solveDependencies_def pickDep_def at_js_def)
qed

text \<open>
  The claim as stated fails on a cache with a version whose string form is not numeric
  (\<^verbatim>\<open>parseVersion\<close> of a directory name \<^verbatim>\<open>x.5.0\<close>): a component that is \<^verbatim>\<open>NaN\<close> is
  skipped by \<^verbatim>\<open>versionCompare\<close>, so \<^verbatim>\<open>x.5.0\<close> satisfies the intersection
  \<^verbatim>\<open>2.0.0 <= v < 3.9.0\<close> of the two constraints on \<^verbatim>\<open>Q\<close> but not the constraint
  \<^verbatim>\<open>1.9.0 <= v < 3.9.0\<close> that the selected entry of \<^verbatim>\<open>A\<close> declares. It also fails on
  a root map that has the empty string as a package name: the empty solution is
  returned and no root constraint is satisfied.
\<close>

theorem solveDependencies_sound_counterexample:
  "solveDependencies 4 cache_x [(''A'', c_1_to_2), (''B'', c_1_to_2)] =
     Returns (Some [(''A'', parseVersion ''1.0.0''), (''B'', parseVersion ''1.0.0''),
                    (''Q'', parseVersion ''x.5.0'')]) \<and>
   cache_x ''A'' = Inr [package ''1.0.0'' [(''Q'', c_19_to_39)]] \<and>
   \<not> versionSatifiesConstraint (parseVersion ''x.5.0'') c_19_to_39 \<and>
   solveDependencies 1 cache5 [([], c_1_to_2), (''P'', c_1_to_2)] = Returns (Some [])"
  by code_simp

section \<open>The solver: termination\<close>

lemma tryCandidates_mono_step:
  assumes IH': "\<forall>deps sols. solveDependenciesWorker n cache deps sols \<noteq> Diverges \<longrightarrow>
      solveDependenciesWorker (Suc n) cache deps sols = solveDependenciesWorker n cache deps sols"
  shows "tryCandidates n cache rest sols name cands \<noteq> Diverges \<Longrightarrow>
         tryCandidates (Suc n) cache rest sols name cands = tryCandidates n cache rest sols name cands"
proof (induction cands)
  case Nil
  show ?case by simp
next
  case (Cons cand cands)
  note IH = IH'[rule_format]
  show ?case
  proof (cases "combineDeps rest (dependencies cand)")
    case (Inl e)
    then show ?thesis by simp
  next
    case (Inr otd)
    show ?thesis
    proof (cases otd)
      case None
      with Inr Cons show ?thesis by simp
    next
      case (Some td)
      let ?sols' = "AList.update name (version cand) sols"
      from Cons.prems Inr Some have nd: "solveDependenciesWorker n cache td ?sols' \<noteq> Diverges"
        by (auto split: run.splits)
      note w = IH[OF nd]
      show ?thesis
      proof (cases "solveDependenciesWorker n cache td ?sols'")
        case Diverges
        with nd show ?thesis by simp
      next
        case (Throws e)
        with w Inr Some show ?thesis by simp
      next
        case (Returns res)
        show ?thesis
        proof (cases res)
          case None
          with Returns w Inr Some Cons show ?thesis by simp
        next
          case (Some r1)
          with Returns Inr \<open>otd = Some td\<close> Cons.prems
          have "solveDependenciesWorker n cache (pending r1) (solutions r1) \<noteq> Diverges"
            by simp
          from IH[OF this] Some Returns w Inr \<open>otd = Some td\<close> show ?thesis by simp
        qed
      qed
    qed
  qed
qed

lemma worker_mono_step:
  "solveDependenciesWorker n cache deps sols \<noteq> Diverges \<Longrightarrow>
   solveDependenciesWorker (Suc n) cache deps sols = solveDependenciesWorker n cache deps sols"
proof (induction n arbitrary: deps sols)
  case 0
  then show ?case by simp
next
  case (Suc n)
  have "\<forall>deps sols. solveDependenciesWorker n cache deps sols \<noteq> Diverges \<longrightarrow>
      solveDependenciesWorker (Suc n) cache deps sols = solveDependenciesWorker n cache deps sols"
    using Suc.IH by blast
  note step = tryCandidates_mono_step[OF this]
  obtain od rest where pd: "pickDep deps = (od, rest)"
    by (cases "pickDep deps")
  show ?case
  proof (cases od)
    case None
    with pd show ?thesis by simp
  next
    case (Some d)
    obtain name constraint where d: "d = (name, constraint)"
      by (cases d)
    show ?thesis
    proof (cases "cache name")
      case (Inl e)
      with pd Some d show ?thesis by simp
    next
      case (Inr ps)
      with pd Some d Suc.prems
      have "tryCandidates n cache rest sols name (candidates_of ps constraint (map_of sols name)) \<noteq> Diverges"
        by simp
      from step[OF this] pd Some d Inr show ?thesis by simp
    qed
  qed
qed

lemma worker_mono:
  "solveDependenciesWorker n cache deps sols \<noteq> Diverges \<Longrightarrow> n \<le> m \<Longrightarrow>
   solveDependenciesWorker m cache deps sols = solveDependenciesWorker n cache deps sols"
proof (induction m)
  case 0
  then show ?case by simp
next
  case (Suc m)
  show ?case
  proof (cases "n = Suc m")
    case True
    then show ?thesis by simp
  next
    case False
    with Suc.prems have le: "n \<le> m" by simp
    from Suc.IH[OF Suc.prems(1) le] Suc.prems(1) worker_mono_step[of m cache deps sols]
    show ?thesis by simp
  qed
qed

lemma tryCandidates_mono:
  "tryCandidates n cache rest sols name cands \<noteq> Diverges \<Longrightarrow> n \<le> m \<Longrightarrow>
   tryCandidates m cache rest sols name cands = tryCandidates n cache rest sols name cands"
proof (induction m)
  case 0
  then show ?case by simp
next
  case (Suc m)
  show ?case
  proof (cases "n = Suc m")
    case True
    then show ?thesis by simp
  next
    case False
    with Suc.prems have le: "n \<le> m" by simp
    have "\<forall>deps sols. solveDependenciesWorker m cache deps sols \<noteq> Diverges \<longrightarrow>
      solveDependenciesWorker (Suc m) cache deps sols = solveDependenciesWorker m cache deps sols"
      using worker_mono_step by blast
    from Suc.IH[OF Suc.prems(1) le] Suc.prems(1) tryCandidates_mono_step[OF this, of rest sols name cands]
    show ?thesis by simp
  qed
qed

lemma tryCandidates_pending:
  assumes IH: "\<forall>deps sols r. solveDependenciesWorker n cache deps sols = Returns (Some r) \<longrightarrow>
      fst (pickDep (pending r)) = None"
  shows "tryCandidates n cache rest sols name cands = Returns (Some r) \<Longrightarrow>
         fst (pickDep (pending r)) = None"
proof (induction cands)
  case Nil
  then show ?case by simp
next
  case (Cons cand cands)
  then show ?case
    by (auto split: sum.splits option.splits run.splits dest: IH[rule_format])
qed

lemma worker_pending:
  "solveDependenciesWorker n cache deps sols = Returns (Some r) \<Longrightarrow> fst (pickDep (pending r)) = None"
proof (induction n arbitrary: deps sols r)
  case 0
  then show ?case by simp
next
  case (Suc n)
  have "\<forall>deps sols r. solveDependenciesWorker n cache deps sols = Returns (Some r) \<longrightarrow>
      fst (pickDep (pending r)) = None"
    using Suc.IH by blast
  note t = tryCandidates_pending[OF this]
  from Suc.prems show ?case
    by (auto split: prod.splits option.splits sum.splits dest: t)
qed

lemma worker_base:
  "fst (pickDep deps) = None \<Longrightarrow>
   solveDependenciesWorker (Suc n) cache deps sols = Returns (Some \<lparr>pending = deps, solutions = sols\<rparr>)"
  by (cases "pickDep deps") simp

lemma fst_set_delete_eq: "fst ` set (AList.delete k al) = fst ` set al - {k}"
  by (induction al) auto

lemma measure_decreases:
  assumes pd: "pickDep deps = (Some (name, c), rest)"
    and cache: "cache name = Inr ps" "cand \<in> set ps"
    and td: "combineDeps rest (dependencies cand) = Inr (Some td)"
  shows "(mset_set (fst ` set td), mset_set (fst ` set deps)) \<in> mult (depends_on cache)"
proof -
  let ?K = "fst ` set deps"
  let ?D = "fst ` set (dependencies cand)"
  from pickDep_Some[OF pd] have name: "map_of deps name = Some c" and rest: "rest = AList.delete name deps"
    by simp_all
  from name have nK: "name \<in> ?K"
    by (metis domI dom_map_of_conv_image_fst)
  have keys: "fst ` set td = (?K - {name}) \<union> (?D - (?K - {name}))"
    by (auto simp: combineDeps_keys[OF td] rest fst_set_delete_eq)
  have "mset_set (fst ` set td) = mset_set (?K - {name}) + mset_set (?D - (?K - {name}))"
    unfolding keys by (rule mset_set_Union) auto
  moreover have "mset_set ?K = mset_set (?K - {name}) + {#name#}"
    using nK by (simp add: mset_set.remove)
  moreover have "(mset_set (?K - {name}) + mset_set (?D - (?K - {name})),
      mset_set (?K - {name}) + {#name#}) \<in> mult (depends_on cache)"
  proof (rule one_step_implies_mult)
    show "{#name#} \<noteq> {#}" by simp
    show "\<forall>k\<in>#mset_set (?D - (?K - {name})). \<exists>j\<in>#{#name#}. (k, j) \<in> depends_on cache"
      using cache by (auto simp: depends_on_def)
  qed
  ultimately show ?thesis by simp
qed

lemma tryCandidates_halts:
  assumes IH: "\<forall>td sols. (mset_set (fst ` set td), mset_set (fst ` set deps)) \<in> mult (depends_on cache) \<longrightarrow>
      (\<exists>n. solveDependenciesWorker n cache td sols \<noteq> Diverges)"
    and pd: "pickDep deps = (Some (name, c), rest)"
    and cache: "cache name = Inr ps"
  shows "set cands \<subseteq> set ps \<Longrightarrow> \<exists>n. tryCandidates n cache rest sols name cands \<noteq> Diverges"
proof (induction cands)
  case Nil
  show ?case by simp
next
  case (Cons cand cands)
  then obtain n2 where n2: "tryCandidates n2 cache rest sols name cands \<noteq> Diverges"
    and cand: "cand \<in> set ps"
    by auto
  show ?case
  proof (cases "combineDeps rest (dependencies cand)")
    case (Inl e)
    then have "tryCandidates 0 cache rest sols name (cand # cands) \<noteq> Diverges" by simp
    then show ?thesis ..
  next
    case (Inr otd)
    show ?thesis
    proof (cases otd)
      case None
      with Inr n2 have "tryCandidates n2 cache rest sols name (cand # cands) \<noteq> Diverges" by simp
      then show ?thesis ..
    next
      case (Some td)
      let ?sols' = "AList.update name (version cand) sols"
      from Inr Some have td: "combineDeps rest (dependencies cand) = Inr (Some td)" by simp
      from IH[rule_format, OF measure_decreases[where cache = cache, OF pd cache cand td]]
      obtain n1 where n1: "solveDependenciesWorker n1 cache td ?sols' \<noteq> Diverges"
        by blast
      let ?n = "max n1 n2"
      have w: "solveDependenciesWorker ?n cache td ?sols' = solveDependenciesWorker n1 cache td ?sols'"
        by (rule worker_mono[OF n1]) simp
      have t: "tryCandidates ?n cache rest sols name cands = tryCandidates n2 cache rest sols name cands"
        by (rule tryCandidates_mono[OF n2]) simp
      show ?thesis
      proof (cases "solveDependenciesWorker n1 cache td ?sols'")
        case Diverges
        with n1 show ?thesis by simp
      next
        case (Throws e)
        with w td have "tryCandidates ?n cache rest sols name (cand # cands) \<noteq> Diverges" by simp
        then show ?thesis ..
      next
        case (Returns res)
        show ?thesis
        proof (cases res)
          case None
          with Returns w td t n2 have "tryCandidates ?n cache rest sols name (cand # cands) \<noteq> Diverges"
            by simp
          then show ?thesis ..
        next
          case (Some r1)
          with Returns have r1: "solveDependenciesWorker n1 cache td ?sols' = Returns (Some r1)" by simp
          from r1 have "n1 \<noteq> 0"
            by (cases n1) simp_all
          then have "0 < ?n" by simp
          then obtain k where k: "?n = Suc k"
            using gr0_implies_Suc by blast
          have "solveDependenciesWorker ?n cache (pending r1) (solutions r1) \<noteq> Diverges"
            unfolding k using worker_base[OF worker_pending[OF r1]] by simp
          with r1 w td have "tryCandidates ?n cache rest sols name (cand # cands) \<noteq> Diverges"
            by simp
          then show ?thesis ..
        qed
      qed
    qed
  qed
qed

lemma worker_halts:
  assumes "wf (depends_on cache)"
  shows "\<exists>n. solveDependenciesWorker n cache deps sols \<noteq> Diverges"
proof -
  have wfm: "wf (inv_image (mult (depends_on cache)) (\<lambda>deps :: IConstraint js_map. mset_set (fst ` set deps)))"
    by (rule wf_inv_image[OF wf_mult[OF assms]])
  have "\<forall>sols. \<exists>n. solveDependenciesWorker n cache deps sols \<noteq> Diverges"
  proof (induction deps rule: wf_induct_rule[OF wfm])
    case (1 deps)
    then have IH: "\<forall>td sols. (mset_set (fst ` set td), mset_set (fst ` set deps)) \<in> mult (depends_on cache) \<longrightarrow>
        (\<exists>n. solveDependenciesWorker n cache td sols \<noteq> Diverges)"
      by simp
    show ?case
    proof
      fix sols
      obtain od rest where pd: "pickDep deps = (od, rest)"
        by (cases "pickDep deps")
      show "\<exists>n. solveDependenciesWorker n cache deps sols \<noteq> Diverges"
      proof (cases od)
        case None
        with pd have "solveDependenciesWorker (Suc 0) cache deps sols \<noteq> Diverges" by simp
        then show ?thesis ..
      next
        case (Some d)
        obtain name c where d: "d = (name, c)" by (cases d)
        show ?thesis
        proof (cases "cache name")
          case (Inl e)
          with pd Some d have "solveDependenciesWorker (Suc 0) cache deps sols \<noteq> Diverges" by simp
          then show ?thesis ..
        next
          case (Inr ps)
          have "set (candidates_of ps c (map_of sols name)) \<subseteq> set ps"
            using candidates_of_set by blast
          from tryCandidates_halts[OF IH pd[unfolded Some d] Inr this]
          obtain n where "tryCandidates n cache rest sols name (candidates_of ps c (map_of sols name)) \<noteq> Diverges"
            by blast
          with pd Some d Inr have "solveDependenciesWorker (Suc n) cache deps sols \<noteq> Diverges" by simp
          then show ?thesis ..
        qed
      qed
    qed
  qed
  then show ?thesis by blast
qed

text \<open>
  Claim C5, as amended. For every package cache whose dependency relation is
  well-founded (for a cache with finitely many entries: no package depends on itself
  through any chain of declared dependencies), every root dependency map and every
  partial solution, \<^verbatim>\<open>solveDependenciesWorker\<close> terminates: from some recursion depth on
  the call returns or raises, with the same outcome at every greater depth.
\<close>

theorem solveDependenciesWorker_terminates:
  assumes "wf (depends_on packageCache)"
  shows "\<exists>n result. result \<noteq> Diverges \<and>
           (\<forall>m\<ge>n. solveDependenciesWorker m packageCache deps sols = result)"
proof -
  from worker_halts[OF assms] obtain n where n: "solveDependenciesWorker n packageCache deps sols \<noteq> Diverges"
    by blast
  then have "\<forall>m\<ge>n. solveDependenciesWorker m packageCache deps sols =
      solveDependenciesWorker n packageCache deps sols"
    using worker_mono by blast
  with n show ?thesis by blast
qed

text \<open>
  The claim as stated fails on a finite cache with a cycle: when \<^verbatim>\<open>A\<close> at \<^verbatim>\<open>1.0.0\<close>
  depends on \<^verbatim>\<open>A\<close>, the worker calls itself with the same pending map at every depth.
\<close>

lemma cyclic_diverges:
  "map_of sols ''A'' = None \<or> (\<exists>sv. map_of sols ''A'' = Some sv \<and> string sv = ''1.0.0'') \<Longrightarrow>
   solveDependenciesWorker n cache_cyclic [(''A'', c_1_to_2)] sols = Diverges"
proof (induction n arbitrary: sols)
  case 0
  show ?case by simp
next
  case (Suc n)
  let ?pkg = "package ''1.0.0'' [(''A'', c_1_to_2)]"
  have pd: "pickDep [(''A'', c_1_to_2)] = (Some (''A'', c_1_to_2), [])"
    by (simp add: pickDep_def at_js_def)
  have c: "cache_cyclic ''A'' = Inr [?pkg]"
    by (simp add: cache_cyclic_def cache_of_def)
  have sat: "versionSatifiesConstraint (version ?pkg) c_1_to_2"
    by code_simp
  have str: "string (version ?pkg) = ''1.0.0''"
    by (simp add: package_def parseVersion_def Let_def)
  have cands: "candidates_of [?pkg] c_1_to_2 (map_of sols ''A'') = [?pkg]"
    using Suc.prems sat str by (auto simp: candidates_of_eq)
  have cd: "combineDeps [] (dependencies ?pkg) = Inr (Some [(''A'', c_1_to_2)])"
    by (simp add: combineDeps_def js_Set_def package_def)
  have "solveDependenciesWorker n cache_cyclic [(''A'', c_1_to_2)] (AList.update ''A'' (version ?pkg) sols) = Diverges"
    by (rule Suc.IH) (simp add: update_conv' str)
  then show ?case
    by (simp add: pd c cands cd)
qed

theorem solveDependenciesWorker_cycle_counterexample:
  "\<forall>n. solveDependenciesWorker n cache_cyclic [(''A'', c_1_to_2)] [] = Diverges"
  by (simp add: cyclic_diverges)

theorem solveDependenciesWorker_terminates_witness:
  "wf (depends_on cache5) \<and>
   solveDependenciesWorker 3 cache5 [(''P'', c_1_to_2)] [] =
     Returns (Some \<lparr>pending = [],
       solutions = [(''P'', parseVersion ''1.5.0''), (''Q'', parseVersion ''1.9.0'')]\<rparr>) \<and>
   (\<exists>n result. result \<noteq> Diverges \<and>
      (\<forall>m\<ge>n. solveDependenciesWorker m cache5 [(''P'', c_1_to_2)] [] = result))"
proof -
  have "depends_on cache5 \<subseteq> {(''Q'', ''P'')}"
    by (auto simp: depends_on_def cache5_def cache_of_def package_def split: if_splits)
  moreover have "wf {(''Q'', ''P'')}"
    by (simp add: wf_insert)
  ultimately have w: "wf (depends_on cache5)"
    by (rule wf_subset[rotated])
  have r: "solveDependenciesWorker 3 cache5 [(''P'', c_1_to_2)] [] =
     Returns (Some \<lparr>pending = [],
       solutions = [(''P'', parseVersion ''1.5.0''), (''Q'', parseVersion ''1.9.0'')]\<rparr>)"
    by code_simp
  from solveDependenciesWorker_terminates[OF w, of "[(''P'', c_1_to_2)]" "[]"] w r
  show ?thesis by (intro conjI)
qed

text \<open>
  Claim C3, on the input where the code departs from it. The comparator of the
  candidate sort compares two version objects with \<^verbatim>\<open><\<close> and \<^verbatim>\<open>></\<close>, which is never true,
  so the stable sort leaves the cache order and the candidates are tried in the reverse
  of the order the cache lists them. With the cache listing \<^verbatim>\<open>1.0.10\<close> before
  \<^verbatim>\<open>1.0.2\<close>, as a directory listing does, the older \<^verbatim>\<open>1.0.2\<close> is tried first and
  returned, although \<^verbatim>\<open>1.0.10\<close> satisfies the constraint and is newer.
\<close>

theorem candidates_reverse_cache_order:
  "candidates_of packages constraint None =
     rev (filter (\<lambda>p. versionSatifiesConstraint (version p) constraint) packages) \<and>
   candidates_of [package ''1.0.10'' [], package ''1.0.2'' []] c_1_to_2 None =
     [package ''1.0.2'' [], package ''1.0.10'' []] \<and>
   versionCompare (parseVersion ''1.0.2'') (parseVersion ''1.0.10'') = - 1 \<and>
   solveDependencies 2 cache_listing [(''P'', c_1_to_2)] =
     Returns (Some [(''P'', parseVersion ''1.0.2'')])"
proof -
  have "candidates_of [package ''1.0.10'' [], package ''1.0.2'' []] c_1_to_2 None =
     [package ''1.0.2'' [], package ''1.0.10'' []]"
    by code_simp
  moreover have "versionCompare (parseVersion ''1.0.2'') (parseVersion ''1.0.10'') = - 1"
    by code_simp
  moreover have "solveDependencies 2 cache_listing [(''P'', c_1_to_2)] =
     Returns (Some [(''P'', parseVersion ''1.0.2'')])"
    by code_simp
  ultimately show ?thesis
    by (simp add: candidates_of_eq)
qed

section \<open>The handlers\<close>

text \<open>
  Claim C10. For every forest index and every request, the destinations returned by
  \<^verbatim>\<open>handleGetMoveDestinationsRequest\<close> are, in order, one for each tree of the index
  that is writeable and whose URI differs from \<^verbatim>\<open>sourceUri\<close>; the source file is not
  among them, and where the index lists every URI once a tree is among them exactly
  when it is writeable and not the source file, so a read-only tree never is.
\<close>

theorem move_destinations_exact:
  "map destinationUri (destinations (handleGetMoveDestinationsRequest fsPath rootPath treeIndex request)) =
     map uri (filter (\<lambda>t. writeable t \<and> uri t \<noteq> sourceUri request) treeIndex) \<and>
   sourceUri request \<notin>
     set (map destinationUri (destinations (handleGetMoveDestinationsRequest fsPath rootPath treeIndex request))) \<and>
   (distinct (map uri treeIndex) \<longrightarrow>
      (\<forall>t\<in>set treeIndex.
         uri t \<in> set (map destinationUri
                    (destinations (handleGetMoveDestinationsRequest fsPath rootPath treeIndex request))) \<longleftrightarrow>
         writeable t \<and> uri t \<noteq> sourceUri request))"
proof -
  let ?keep = "filter (\<lambda>t. writeable t \<and> uri t \<noteq> sourceUri request) treeIndex"
  have m: "map destinationUri (destinations (handleGetMoveDestinationsRequest fsPath rootPath treeIndex request)) =
     map uri ?keep"
    by (simp add: handleGetMoveDestinationsRequest_def Let_def comp_def)
  have s: "sourceUri request \<notin> set (map uri ?keep)"
    by auto
  have d: "uri t \<in> set (map uri ?keep) \<longleftrightarrow> writeable t \<and> uri t \<noteq> sourceUri request"
    if "distinct (map uri treeIndex)" and "t \<in> set treeIndex" for t
  proof
    assume "uri t \<in> set (map uri ?keep)"
    then obtain t' where t': "t' \<in> set treeIndex" "writeable t'" "uri t' \<noteq> sourceUri request" "uri t' = uri t"
      by auto
    from that(1) have "inj_on uri (set treeIndex)"
      by (simp add: distinct_map)
    with t'(1,4) that(2) have "t' = t"
      by (simp add: inj_on_def)
    with t'(2,3) show "writeable t \<and> uri t \<noteq> sourceUri request" by simp
  next
    assume "writeable t \<and> uri t \<noteq> sourceUri request"
    with that(2) show "uri t \<in> set (map uri ?keep)" by auto
  qed
  show ?thesis
    unfolding m using s d by blast
qed

theorem move_destinations_exact_witness:
  "distinct (map uri sample_index) \<and>
   map destinationUri (destinations (handleGetMoveDestinationsRequest (drop 8) sample_root sample_index sample_move)) =
     [sample_file ''B.elm''] \<and>
   sample_file ''A.elm'' \<notin>
     set (map destinationUri (destinations (handleGetMoveDestinationsRequest (drop 8) sample_root sample_index sample_move))) \<and>
   ''file:///home/elm/Core.elm'' \<notin>
     set (map destinationUri (destinations (handleGetMoveDestinationsRequest (drop 8) sample_root sample_index sample_move)))"
proof -
  let ?ds = "map destinationUri (destinations (handleGetMoveDestinationsRequest (drop 8) sample_root sample_index sample_move))"
  let ?core = "\<lparr>uri = ''file:///home/elm/Core.elm'', writeable = False, tree = sample_tree\<rparr>"
  have d: "distinct (map uri sample_index)"
    by code_simp
  have k: "map uri (filter (\<lambda>t. writeable t \<and> uri t \<noteq> sourceUri sample_move) sample_index) = [sample_file ''B.elm'']"
    by code_simp
  have src: "sourceUri sample_move = sample_file ''A.elm''"
    by (simp add: sample_move_def)
  have core: "?core \<in> set sample_index" "\<not> writeable ?core" "uri ?core = ''file:///home/elm/Core.elm''"
    by (simp_all add: sample_index_def)
  note t = move_destinations_exact[of "drop 8" sample_root sample_index sample_move]
  from t[THEN conjunct1] have 1: "?ds = [sample_file ''B.elm'']"
    unfolding k .
  from t[THEN conjunct2, THEN conjunct1] have 2: "sample_file ''A.elm'' \<notin> set ?ds"
    unfolding src .
  from t[THEN conjunct2, THEN conjunct2, THEN mp, OF d, THEN bspec, OF core(1)]
  have 3: "''file:///home/elm/Core.elm'' \<notin> set ?ds"
    unfolding core(3) using core(2) by blast
  from d 1 2 3 show ?thesis by (intro conjI)
qed

text \<open>
  Claim C9. When the forest has no tree for the requested URI, \<^verbatim>\<open>handleHoverRequest\<close>
  returns \<^verbatim>\<open>undefined\<close> without calling any collaborator; when the node at the position
  is found, no definition node resolves for it and its text is the name of no empty
  type, it returns \<^verbatim>\<open>undefined\<close> as well. Neither case raises.
\<close>

theorem hover_absent_result:
  "(getByUri env (textDocumentUri request) = None \<longrightarrow>
      snd (handleHoverRequest env request) = Inr None) \<and>
   (getByUri env (textDocumentUri request) = Some container \<and>
    getNamedDescendantForPosition env (rootNode (tree container)) (position request) = Inr nodeAtPosition \<and>
    findDefinitionNodeByReferencingNode env nodeAtPosition (textDocumentUri request) (tree container)
      (getImports env) = Inr None \<and>
    text_of nodeAtPosition \<notin> set (map emptyTypeName getEmptyTypes) \<longrightarrow>
      snd (handleHoverRequest env request) = Inr None)"
proof (intro conjI impI)
  assume "getByUri env (textDocumentUri request) = None"
  then show "snd (handleHoverRequest env request) = Inr None"
    by (simp add: handleHoverRequest_def)
next
  assume a: "getByUri env (textDocumentUri request) = Some container \<and>
    getNamedDescendantForPosition env (rootNode (tree container)) (position request) = Inr nodeAtPosition \<and>
    findDefinitionNodeByReferencingNode env nodeAtPosition (textDocumentUri request) (tree container)
      (getImports env) = Inr None \<and>
    text_of nodeAtPosition \<notin> set (map emptyTypeName getEmptyTypes)"
  then have "find (\<lambda>a. emptyTypeName a = text_of nodeAtPosition) getEmptyTypes = None"
    unfolding find_None_iff by (metis image_eqI set_map)
  with a show "snd (handleHoverRequest env request) = Inr None"
    by (simp add: handleHoverRequest_def)
qed

theorem hover_absent_result_witness:
  "getByUri sample_hover_env (sample_file ''B.elm'') = None \<and>
   snd (handleHoverRequest sample_hover_env
          \<lparr>textDocumentUri = sample_file ''B.elm'', position = \<lparr>line = 0, character = 1\<rparr>\<rparr>) = Inr None \<and>
   text_of sample_node \<notin> set (map emptyTypeName getEmptyTypes) \<and>
   snd (handleHoverRequest sample_hover_env
          \<lparr>textDocumentUri = sample_file ''A.elm'', position = \<lparr>line = 0, character = 1\<rparr>\<rparr>) = Inr None"
proof -
  let ?rb = "\<lparr>textDocumentUri = sample_file ''B.elm'', position = \<lparr>line = 0, character = 1\<rparr>\<rparr>"
  let ?ra = "\<lparr>textDocumentUri = sample_file ''A.elm'', position = \<lparr>line = 0, character = 1\<rparr>\<rparr>"
  let ?c = "\<lparr>uri = sample_file ''A.elm'', writeable = True, tree = sample_tree\<rparr>"
  have b: "getByUri sample_hover_env (textDocumentUri ?rb) = None"
    by (simp add: sample_hover_env_def sample_file_def)
  have a: "getByUri sample_hover_env (textDocumentUri ?ra) = Some ?c \<and>
    getNamedDescendantForPosition sample_hover_env (rootNode (tree ?c)) (position ?ra) = Inr sample_node \<and>
    findDefinitionNodeByReferencingNode sample_hover_env sample_node (textDocumentUri ?ra) (tree ?c)
      (getImports sample_hover_env) = Inr None \<and>
    text_of sample_node \<notin> set (map emptyTypeName getEmptyTypes)"
    by (simp add: sample_hover_env_def sample_tree_def sample_node_def getEmptyTypes_def)
  from hover_absent_result[of sample_hover_env ?rb, THEN conjunct1, THEN mp, OF b]
  have 1: "snd (handleHoverRequest sample_hover_env ?rb) = Inr None" .
  from hover_absent_result[of sample_hover_env ?ra ?c sample_node, THEN conjunct2, THEN mp, OF a]
  have 2: "snd (handleHoverRequest sample_hover_env ?ra) = Inr None" .
  from b a 1 2 show ?thesis by simp
qed

section \<open>The move handler: staging the edits\<close>

lemma grows_refl: "grows c c"
  by (simp add: grows_def)

lemma grows_trans: "grows a b \<Longrightarrow> grows b c \<Longrightarrow> grows a c"
  unfolding grows_def by (meson subset_trans)

lemma grows_update_new: "map_of c u = None \<Longrightarrow> grows c (AList.update u es c)"
  by (auto simp: grows_def update_conv')

lemma grows_member:
  assumes "grows c c'" and "e \<in> set (edits_for c u)"
  shows "e \<in> set (edits_for c' u)"
proof (cases "map_of c u")
  case None
  with assms(2) show ?thesis by (simp add: edits_for_def)
next
  case (Some es)
  with assms(1) obtain es' where "map_of c' u = Some es'" "set es \<subseteq> set es'"
    unfolding grows_def by blast
  with Some assms(2) show ?thesis by (auto simp: edits_for_def)
qed

lemma grows_staged: "grows c c' \<Longrightarrow> map_of c u \<noteq> None \<Longrightarrow> map_of c' u \<noteq> None"
  unfolding grows_def by fastforce

lemma push_js_staged:
  assumes "map_of c u \<noteq> None"
  shows "\<exists>c'. push_js u e c = Inr c' \<and> grows c c' \<and> e \<in> set (edits_for c' u)"
proof -
  from assms obtain es where es: "map_of c u = Some es" by blast
  then have "push_js u e c = Inr (AList.update u (es @ [e]) c)"
    by (simp add: push_js_def)
  moreover have "grows c (AList.update u (es @ [e]) c)"
    using es by (auto simp: grows_def update_conv')
  moreover have "e \<in> set (edits_for (AList.update u (es @ [e]) c) u)"
    by (simp add: edits_for_def update_conv')
  ultimately show ?thesis by blast
qed

lemma push_if_staged:
  assumes "map_of c u \<noteq> None"
  shows "\<exists>c'. push_if u edit c = Inr c' \<and> grows c c' \<and> (\<forall>e. edit = Some e \<longrightarrow> e \<in> set (edits_for c' u))"
proof (cases edit)
  case None
  then show ?thesis by (simp add: push_if_def grows_refl)
next
  case (Some e)
  with push_js_staged[OF assms, of e] show ?thesis by (simp add: push_if_def)
qed

lemma forEach_grows:
  assumes step: "\<And>x c. x \<in> set xs \<Longrightarrow> P c \<Longrightarrow> \<exists>c'. f x c = Inr c' \<and> grows c c' \<and> Q x c'"
    and P_mono: "\<And>c c'. P c \<Longrightarrow> grows c c' \<Longrightarrow> P c'"
    and Q_mono: "\<And>x c c'. Q x c \<Longrightarrow> grows c c' \<Longrightarrow> Q x c'"
  shows "P c \<Longrightarrow> \<exists>c'. forEach_js f xs c = Inr c' \<and> grows c c' \<and> (\<forall>x\<in>set xs. Q x c')"
  using step
proof (induction xs arbitrary: c)
  case Nil
  then show ?case by (simp add: grows_refl)
next
  case (Cons x xs)
  from Cons.prems(2)[of x c] Cons.prems(1) obtain c1 where
    c1: "f x c = Inr c1" "grows c c1" "Q x c1"
    by auto
  have P1: "P c1"
    using P_mono[OF Cons.prems(1) c1(2)] .
  have "\<exists>c'. forEach_js f xs c1 = Inr c' \<and> grows c1 c' \<and> (\<forall>x\<in>set xs. Q x c')"
    by (rule Cons.IH[OF P1]) (simp add: Cons.prems(2))
  then obtain c2 where c2: "forEach_js f xs c1 = Inr c2" "grows c1 c2" "\<forall>x\<in>set xs. Q x c2"
    by blast
  from c1 c2 have "forEach_js f (x # xs) c = Inr c2" by simp
  moreover from c1(2) c2(2) have "grows c c2" by (rule grows_trans)
  moreover from Q_mono[OF c1(3) c2(2)] c2(3) have "\<forall>y\<in>set (x # xs). Q y c2" by simp
  ultimately show ?case by blast
qed

lemma removeOldImport_step:
  "\<exists>c'. removeOldImport env t u c = Inr c' \<and> grows c c' \<and>
        (map_of c' u \<noteq> None \<and>
         (\<forall>refTree e. getTree env u = Some refTree \<and> destinationName (targetDestination t) \<noteq> [] \<and>
            removeValueFromImport env refTree (moduleName t) (functionName t) = Some e \<longrightarrow>
            e \<in> set (edits_for c' u)))"
proof -
  let ?c0 = "if map_of c u = None then AList.update u [] c else c"
  have g0: "grows c ?c0"
    by (simp add: grows_refl grows_update_new)
  have s0: "map_of ?c0 u \<noteq> None"
    by (simp add: update_conv')
  show ?thesis
  proof (cases "getTree env u")
    case None
    then have "removeOldImport env t u c = Inr ?c0"
      by (simp add: removeOldImport_def)
    with g0 s0 None show ?thesis by simp
  next
    case (Some refTree)
    show ?thesis
    proof (cases "destinationName (targetDestination t) \<noteq> []")
      case False
      with Some have "removeOldImport env t u c = Inr ?c0"
        by (simp add: removeOldImport_def)
      with g0 s0 False show ?thesis by simp
    next
      case True
      from push_if_staged[OF s0, of "removeValueFromImport env refTree (moduleName t) (functionName t)"]
      obtain c' where c': "push_if u (removeValueFromImport env refTree (moduleName t) (functionName t)) ?c0 = Inr c'"
        "grows ?c0 c'"
        "\<forall>e. removeValueFromImport env refTree (moduleName t) (functionName t) = Some e \<longrightarrow> e \<in> set (edits_for c' u)"
        by blast
      from Some True c'(1) have "removeOldImport env t u c = Inr c'"
        by (simp add: removeOldImport_def Let_def)
      moreover have "grows c c'"
        using g0 c'(2) by (rule grows_trans)
      moreover have "map_of c' u \<noteq> None"
        using grows_staged[OF c'(2) s0] .
      ultimately show ?thesis
        using c'(3) Some by simp
    qed
  qed
qed

lemma addNewImport_step:
  assumes "map_of c u \<noteq> None"
  shows "\<exists>c'. addNewImport env request t u c = Inr c' \<and> grows c c' \<and>
        (\<forall>refTree e. \<not> (u = sourceUri request \<and> \<not> sourceHasReference env request t) \<and>
            getTree env u = Some refTree \<and>
            addImport env refTree (destinationModuleName t) (functionName t) = Some e \<longrightarrow>
            e \<in> set (edits_for c' u))"
proof (cases "u = sourceUri request \<and> \<not> sourceHasReference env request t")
  case True
  then have "addNewImport env request t u c = Inr c"
    by (simp add: addNewImport_def)
  with True show ?thesis by (simp add: grows_refl)
next
  case False
  show ?thesis
  proof (cases "getTree env u")
    case None
    with False have "addNewImport env request t u c = Inr c"
      by (auto simp: addNewImport_def)
    with None show ?thesis by (simp add: grows_refl)
  next
    case (Some refTree)
    from push_if_staged[OF assms, of "addImport env refTree (destinationModuleName t) (functionName t)"]
    obtain c' where c': "push_if u (addImport env refTree (destinationModuleName t) (functionName t)) c = Inr c'"
      "grows c c'"
      "\<forall>e. addImport env refTree (destinationModuleName t) (functionName t) = Some e \<longrightarrow> e \<in> set (edits_for c' u)"
      by blast
    from False Some c'(1) have "addNewImport env request t u c = Inr c'"
      by (auto simp: addNewImport_def)
    with c'(2,3) Some show ?thesis by simp
  qed
qed

lemma stageChanges_all:
  "\<exists>changes. stageChanges env request t = Inr changes \<and> stages_all env request t changes"
proof -
  let ?src = "sourceUri request"
  let ?dst = "destinationUri (targetDestination t)"
  let ?refs = "moveReferences env request t"
  let ?uris = "js_Set (map referenceUri ?refs)"
  let ?remaining = "removeAll ?dst ?uris"
  let ?c0 = "AList.update ?dst [] (AList.update ?src [] [])"
  let ?Q1 = "\<lambda>u c. map_of c u \<noteq> None \<and>
         (\<forall>refTree e. getTree env u = Some refTree \<and> destinationName (targetDestination t) \<noteq> [] \<and>
            removeValueFromImport env refTree (moduleName t) (functionName t) = Some e \<longrightarrow>
            e \<in> set (edits_for c u))"
  let ?Q2 = "\<lambda>u c. \<forall>refTree e. \<not> (u = ?src \<and> \<not> sourceHasReference env request t) \<and>
            getTree env u = Some refTree \<and>
            addImport env refTree (destinationModuleName t) (functionName t) = Some e \<longrightarrow>
            e \<in> set (edits_for c u)"
  have s0: "map_of ?c0 ?src \<noteq> None" "map_of ?c0 ?dst \<noteq> None"
    by (simp_all add: update_conv')
  from push_js_staged[OF s0(1), of "removeFromSource t"] obtain c1 where
    c1: "push_js ?src (removeFromSource t) ?c0 = Inr c1" "grows ?c0 c1"
      "removeFromSource t \<in> set (edits_for c1 ?src)"
    by blast
  have s1: "map_of c1 ?src \<noteq> None" "map_of c1 ?dst \<noteq> None"
    using grows_staged[OF c1(2)] s0 by blast+
  from push_js_staged[OF s1(2), of "addToDestination t"] obtain c2 where
    c2: "push_js ?dst (addToDestination t) c1 = Inr c2" "grows c1 c2"
      "addToDestination t \<in> set (edits_for c2 ?dst)"
    by blast
  have s2: "map_of c2 ?src \<noteq> None" "map_of c2 ?dst \<noteq> None"
    using grows_staged[OF c2(2)] s1 by blast+
  from push_if_staged[OF s2(1), of "unexposedValueInModule env (sourceTree t) (functionName t)"]
  obtain c3 where
    c3: "push_if ?src (unexposedValueInModule env (sourceTree t) (functionName t)) c2 = Inr c3"
      "grows c2 c3"
      "\<forall>e. unexposedValueInModule env (sourceTree t) (functionName t) = Some e \<longrightarrow>
           e \<in> set (edits_for c3 ?src)"
    by blast
  have "\<exists>c'. forEach_js (removeOldImport env t) ?uris c3 = Inr c' \<and> grows c3 c' \<and>
      (\<forall>u\<in>set ?uris. ?Q1 u c')"
  proof (rule forEach_grows[where P = "\<lambda>c. True"])
    show "\<exists>c'. removeOldImport env t u c = Inr c' \<and> grows c c' \<and> ?Q1 u c'" for u c
      by (rule removeOldImport_step)
    show "?Q1 u c'" if "?Q1 u c" "grows c c'" for u c c'
      using that grows_staged[OF that(2)] grows_member[OF that(2)] by blast
  qed simp_all
  then obtain c4 where
    c4: "forEach_js (removeOldImport env t) ?uris c3 = Inr c4" "grows c3 c4"
      "\<forall>u\<in>set ?uris. ?Q1 u c4"
    by blast
  have s4: "map_of c4 ?dst \<noteq> None"
    using grows_staged[OF c4(2)] grows_staged[OF c3(2)] s2(2) by blast
  have "\<exists>c5. (if ?remaining \<noteq> []
               then push_if ?dst (exposeValueInModule env (destinationTree t) (functionName t)) c4
               else Inr c4) = Inr c5 \<and> grows c4 c5 \<and>
        (\<forall>e. ?remaining \<noteq> [] \<and> exposeValueInModule env (destinationTree t) (functionName t) = Some e \<longrightarrow>
             e \<in> set (edits_for c5 ?dst))"
  proof (cases "?remaining \<noteq> []")
    case True
    with push_if_staged[OF s4, of "exposeValueInModule env (destinationTree t) (functionName t)"]
    show ?thesis by simp
  next
    case False
    then show ?thesis by (simp add: grows_refl)
  qed
  then obtain c5 where
    c5: "(if ?remaining \<noteq> []
               then push_if ?dst (exposeValueInModule env (destinationTree t) (functionName t)) c4
               else Inr c4) = Inr c5" "grows c4 c5"
      "\<forall>e. ?remaining \<noteq> [] \<and> exposeValueInModule env (destinationTree t) (functionName t) = Some e \<longrightarrow>
             e \<in> set (edits_for c5 ?dst)"
    by blast
  have P5: "\<forall>u\<in>set ?remaining. map_of c5 u \<noteq> None"
    using c4(3) grows_staged[OF c5(2)] by auto
  have "\<exists>c'. forEach_js (addNewImport env request t) ?remaining c5 = Inr c' \<and> grows c5 c' \<and>
      (\<forall>u\<in>set ?remaining. ?Q2 u c')"
  proof (rule forEach_grows[where P = "\<lambda>c. \<forall>u\<in>set ?remaining. map_of c u \<noteq> None"])
    show "\<exists>c'. addNewImport env request t u c = Inr c' \<and> grows c c' \<and> ?Q2 u c'"
      if "u \<in> set ?remaining" "\<forall>u\<in>set ?remaining. map_of c u \<noteq> None" for u c
      using addNewImport_step[of c u env request t] that by blast
    show "\<forall>u\<in>set ?remaining. map_of c' u \<noteq> None"
      if "\<forall>u\<in>set ?remaining. map_of c u \<noteq> None" "grows c c'" for c c'
      using that grows_staged[OF that(2)] by blast
    show "?Q2 u c'" if "?Q2 u c" "grows c c'" for u c c'
      using that grows_member[OF that(2)] by blast
    show "\<forall>u\<in>set ?remaining. map_of c5 u \<noteq> None"
      by (rule P5)
  qed
  then obtain c6 where
    c6: "forEach_js (addNewImport env request t) ?remaining c5 = Inr c6" "grows c5 c6"
      "\<forall>u\<in>set ?remaining. ?Q2 u c6"
    by blast
  have run: "stageChanges env request t = Inr c6"
    using c1(1) c2(1) c3(1) c4(1) c5(1) c6(1)
    by (simp add: stageChanges_def Let_def)
  have g16: "grows c1 c6" "grows c2 c6" "grows c3 c6" "grows c4 c6" "grows c5 c6"
    using c2(2) c3(2) c4(2) c5(2) c6(2) grows_trans by blast+
  have uris: "set ?uris = referenceUri ` set ?refs"
    by (simp add: set_js_Set)
  have rem: "?remaining \<noteq> [] \<longleftrightarrow> (\<exists>ref\<in>set ?refs. referenceUri ref \<noteq> ?dst)"
  proof -
    have "?remaining \<noteq> [] \<longleftrightarrow> set ?remaining \<noteq> {}"
      by (rule set_empty[symmetric, THEN arg_cong[where f = Not]])
    also have "\<dots> \<longleftrightarrow> (\<exists>ref\<in>set ?refs. referenceUri ref \<noteq> ?dst)"
      unfolding set_removeAll uris by blast
    finally show ?thesis .
  qed
  have a: "removeFromSource t \<in> set (edits_for c6 ?src)"
    using grows_member[OF g16(1) c1(3)] .
  have b: "addToDestination t \<in> set (edits_for c6 ?dst)"
    using grows_member[OF g16(2) c2(3)] .
  have c: "\<forall>e. unexposedValueInModule env (sourceTree t) (functionName t) = Some e \<longrightarrow>
              e \<in> set (edits_for c6 ?src)"
    using c3(3) grows_member[OF g16(3)] by blast
  have d: "\<forall>e. (\<exists>ref\<in>set ?refs. referenceUri ref \<noteq> ?dst) \<and>
              exposeValueInModule env (destinationTree t) (functionName t) = Some e \<longrightarrow>
              e \<in> set (edits_for c6 ?dst)"
    using c5(3) grows_member[OF g16(5)] rem by blast
  have e1: "?Q1 (referenceUri ref) c6" if "ref \<in> set ?refs" for ref
  proof -
    from that have "referenceUri ref \<in> set ?uris" by (simp add: uris)
    with c4(3) have "?Q1 (referenceUri ref) c4" by blast
    then show ?thesis
      using grows_staged[OF g16(4)] grows_member[OF g16(4)] by blast
  qed
  have e2: "\<forall>refTree e.
               referenceUri ref \<noteq> ?dst \<and>
               \<not> (referenceUri ref = ?src \<and> \<not> sourceHasReference env request t) \<and>
               getTree env (referenceUri ref) = Some refTree \<and>
               addImport env refTree (destinationModuleName t) (functionName t) = Some e \<longrightarrow>
               e \<in> set (edits_for c6 (referenceUri ref))" if "ref \<in> set ?refs" for ref
  proof (cases "referenceUri ref = ?dst")
    case True
    then show ?thesis by simp
  next
    case False
    with that have "referenceUri ref \<in> set ?remaining"
      by (simp add: uris)
    with c6(3) have "?Q2 (referenceUri ref) c6" by blast
    then show ?thesis by blast
  qed
  have "stages_all env request t c6"
    unfolding stages_all_def Let_def
    using a b c d e1 e2 by blast
  with run show ?thesis by blast
qed

text \<open>
  Claim C8. \<^verbatim>\<open>handleMoveRequest\<close> never raises on its own and calls \<^verbatim>\<open>applyEdit\<close> at
  most once: not at all when it finds nothing to move, and otherwise exactly once, with
  a map that holds every edit of the move, the removal from the source, the insertion
  into the destination, the exposing and unexposing edits and the import edits of every
  referencing file. No edit is applied by a call of its own.
\<close>

theorem move_single_applyEdit:
  "\<exists>calls. handleMoveRequest env request = Inr calls \<and> length calls \<le> 1 \<and>
     (calls \<noteq> [] \<longleftrightarrow> findMoveTarget env request \<noteq> None) \<and>
     (\<forall>changes. calls = [changes] \<longrightarrow>
        (\<exists>t. findMoveTarget env request = Some t \<and> stages_all env request t changes))"
proof (cases "findMoveTarget env request")
  case None
  then have "handleMoveRequest env request = Inr []"
    by (simp add: handleMoveRequest_def)
  with None show ?thesis by simp
next
  case (Some t)
  from stageChanges_all[of env request t] obtain changes where
    c: "stageChanges env request t = Inr changes" "stages_all env request t changes"
    by blast
  with Some have "handleMoveRequest env request = Inr [changes]"
    by (simp add: handleMoveRequest_def)
  with Some c(2) show ?thesis by simp
qed

theorem move_single_applyEdit_witness:
  "findMoveTarget sample_move_env sample_move_request \<noteq> None \<and>
   (\<exists>changes t. handleMoveRequest sample_move_env sample_move_request = Inr [changes] \<and>
      findMoveTarget sample_move_env sample_move_request = Some t \<and>
      stages_all sample_move_env sample_move_request t changes) \<and>
   map fst (concat (projr (handleMoveRequest sample_move_env sample_move_request))) = [''A'', ''B'', ''C'']"
proof -
  have f: "findMoveTarget sample_move_env sample_move_request \<noteq> None"
    by code_simp
  have k: "map fst (concat (projr (handleMoveRequest sample_move_env sample_move_request))) = [''A'', ''B'', ''C'']"
    by code_simp
  from move_single_applyEdit[of sample_move_env sample_move_request] obtain calls where
    c: "handleMoveRequest sample_move_env sample_move_request = Inr calls" "length calls \<le> 1"
      "calls \<noteq> [] \<longleftrightarrow> findMoveTarget sample_move_env sample_move_request \<noteq> None"
      "\<forall>changes. calls = [changes] \<longrightarrow>
        (\<exists>t. findMoveTarget sample_move_env sample_move_request = Some t \<and>
             stages_all sample_move_env sample_move_request t changes)"
    by blast
  from c(2,3) f obtain changes where "calls = [changes]"
    by (cases calls) auto
  with c(1,4) have "\<exists>changes t. handleMoveRequest sample_move_env sample_move_request = Inr [changes] \<and>
      findMoveTarget sample_move_env sample_move_request = Some t \<and>
      stages_all sample_move_env sample_move_request t changes"
    by blast
  with f k show ?thesis by (intro conjI)
qed

end
